theory Spec2Isabelle
  imports Main "HOL-Library.Word"
begin

section \<open>JavaScript strings and numbers\<close>

text \<open>
  A JavaScript string is a sequence of UTF-16 code units; \<open>length\<close>, indexing and
  comparison all work on code units.  ASCII literals of the source are written with
  \<open>js\<close>; the few non-ASCII ones (box drawing, the middle dot) are given by code unit.
  The numbers the program handles (line numbers, indices, widths, heights, counts) are
  integers; they are modelled as \<open>int\<close>.
\<close>

type_synonym jschar = "16 word"
type_synonym jsstring = "jschar list"

definition js :: "string \<Rightarrow> jsstring" where
  "js s = map (\<lambda>c. of_nat (of_char c)) s"

definition ESC :: jschar where
  "ESC = 0x1B"

definition CH_m :: jschar where
  "CH_m = 0x6D"

text \<open>The exceptions a JavaScript operation of this program can throw.\<close>

datatype js_error = TypeError | RangeError

text \<open>\<open>s.startsWith(p)\<close>, \<open>s.includes(p)\<close>, \<open>s.endsWith(p)\<close>.\<close>

fun startsWith :: "'a list \<Rightarrow> 'a list \<Rightarrow> bool" where
  "startsWith s [] = True"
| "startsWith [] (p # ps) = False"
| "startsWith (c # cs) (p # ps) = (c = p \<and> startsWith cs ps)"

fun includes_str :: "'a list \<Rightarrow> 'a list \<Rightarrow> bool" where
  "includes_str [] p = startsWith [] p"
| "includes_str (c # cs) p = (startsWith (c # cs) p \<or> includes_str cs p)"

definition endsWith :: "'a list \<Rightarrow> 'a list \<Rightarrow> bool" where
  "endsWith s p = startsWith (rev s) (rev p)"

text \<open>\<open>s.repeat(n)\<close> throws a RangeError for a negative count.\<close>

definition repeat :: "jsstring \<Rightarrow> int \<Rightarrow> js_error + jsstring" where
  "repeat s n = (if n < 0 then Inl RangeError else Inr (concat (replicate (nat n) s)))"

text \<open>\<open>n.toString()\<close> for an integer: decimal digits, with a leading minus sign.\<close>

fun digits :: "nat \<Rightarrow> jsstring" where
  "digits n = (if n < 10 then [of_nat (48 + n)]
               else digits (n div 10) @ [of_nat (48 + n mod 10)])"

declare digits.simps [simp del]

definition toString :: "int \<Rightarrow> jsstring" where
  "toString n = (if n < 0 then js ''-'' @ digits (nat (- n)) else digits (nat n))"

text \<open>\<open>s.padStart(w, ' ')\<close>.\<close>

definition padStart :: "jsstring \<Rightarrow> nat \<Rightarrow> jsstring" where
  "padStart s w = replicate (w - length s) (0x20 :: jschar) @ s"

text \<open>
  \<open>xs.slice(start, end)\<close>: a negative bound counts from the end, and both bounds are
  clamped to the array.
\<close>

definition slice :: "'a list \<Rightarrow> int \<Rightarrow> int \<Rightarrow> 'a list" where
  "slice xs start stop =
     (let n = int (length xs);
          s = (if start < 0 then max (n + start) 0 else min start n);
          e = (if stop < 0 then max (n + stop) 0 else min stop n)
      in take (nat (e - s)) (drop (nat s) xs))"

text \<open>\<open>xs[i]\<close>: \<open>undefined\<close> (here \<open>None\<close>) outside the array.\<close>

definition at_index :: "'a list \<Rightarrow> int \<Rightarrow> 'a option" where
  "at_index xs i = (if 0 \<le> i \<and> i < int (length xs) then Some (xs ! nat i) else None)"

section \<open>The diff engine (diff-engine.ts)\<close>

datatype line_type = Added | Removed | Context

record DiffLine =
  type :: line_type
  content :: jsstring
  oldLineNumber :: "int option"
  newLineNumber :: "int option"

record FileDiff =
  filePath :: jsstring
  isNewFile :: bool
  hunks :: "DiffLine list"
  additions :: int
  deletions :: int

text \<open>
  One hunk of the patch returned by the external \<open>Diff.structuredPatch\<close>.  The library
  itself is a parameter of \<open>computeDiff\<close>: a function from the two file names and the two
  contents to the hunks (the context option is fixed to 3 by the caller).
\<close>

record PatchHunk =
  oldStart :: int
  newStart :: int
  lines :: "jsstring list"

type_synonym structuredPatch = "jsstring \<Rightarrow> jsstring \<Rightarrow> jsstring \<Rightarrow> jsstring \<Rightarrow> PatchHunk list"

record diff_acc =
  acc_hunks :: "DiffLine list"
  acc_additions :: int
  acc_deletions :: int

text \<open>The inner loop of \<open>computeDiff\<close>, over the lines of one hunk.\<close>

fun processLines :: "jsstring list \<Rightarrow> int \<Rightarrow> int \<Rightarrow> diff_acc \<Rightarrow> diff_acc" where
  "processLines [] oldLineNum newLineNum acc = acc"
| "processLines (line # rest) oldLineNum newLineNum acc =
     (let firstChar = (case line of [] \<Rightarrow> None | c # _ \<Rightarrow> Some c);
          content = drop 1 line
      in if firstChar = Some 0x2B then
           processLines rest oldLineNum (newLineNum + 1)
             (acc\<lparr>acc_hunks := acc_hunks acc @
                      [\<lparr>type = Added, content = content,
                        oldLineNumber = None, newLineNumber = Some newLineNum\<rparr>],
                   acc_additions := acc_additions acc + 1\<rparr>)
         else if firstChar = Some 0x2D then
           processLines rest (oldLineNum + 1) newLineNum
             (acc\<lparr>acc_hunks := acc_hunks acc @
                      [\<lparr>type = Removed, content = content,
                        oldLineNumber = Some oldLineNum, newLineNumber = None\<rparr>],
                   acc_deletions := acc_deletions acc + 1\<rparr>)
         else
           processLines rest (oldLineNum + 1) (newLineNum + 1)
             (acc\<lparr>acc_hunks := acc_hunks acc @
                      [\<lparr>type = Context, content = content,
                        oldLineNumber = Some oldLineNum, newLineNumber = Some newLineNum\<rparr>]\<rparr>))"

text \<open>The outer loop, over the hunks of the patch.\<close>

fun processHunks :: "PatchHunk list \<Rightarrow> diff_acc \<Rightarrow> diff_acc" where
  "processHunks [] acc = acc"
| "processHunks (hunk # rest) acc =
     processHunks rest (processLines (lines hunk) (oldStart hunk) (newStart hunk) acc)"

definition computeDiff :: "structuredPatch \<Rightarrow> jsstring \<Rightarrow> jsstring \<Rightarrow> jsstring \<Rightarrow> FileDiff" where
  "computeDiff structuredPatch path original current =
     (let is_new = (original = [] \<and> current \<noteq> [])
      in if original = [] \<and> current = [] then
           \<lparr>filePath = path, isNewFile = False, hunks = [], additions = 0, deletions = 0\<rparr>
         else
           (let patches = structuredPatch path path original current;
                acc = processHunks patches
                        \<lparr>acc_hunks = [], acc_additions = 0, acc_deletions = 0\<rparr>
            in \<lparr>filePath = path, isNewFile = is_new, hunks = acc_hunks acc,
                additions = acc_additions acc, deletions = acc_deletions acc\<rparr>))"

section \<open>The inline view (inline-view.ts)\<close>

text \<open>
  A rendered row: \<open>rcontent\<close> is the field \<open>content\<close> of the source's \<open>RenderedLine\<close>
  (the styled text), \<open>rawContent\<close> the text without styling.
\<close>

record RenderedLine =
  rcontent :: jsstring
  rawContent :: jsstring

type_synonym HighlightFn = "jsstring \<Rightarrow> jsstring \<Rightarrow> jsstring"

record InlineDiffView =
  diff :: FileDiff
  highlightFn :: "HighlightFn option"
  renderedLines :: "RenderedLine list"
  scrollOffset :: int
  cursorLine :: int
  lineToHunkIndex :: "int list"
  visualMode :: bool
  visualAnchor :: int

text \<open>The escape sequences the view writes.\<close>

definition RESET :: jsstring where
  "RESET = ESC # js ''[0m''"

definition CSI :: jsstring where
  "CSI = ESC # js ''[''"

definition GREEN :: jsstring where
  "GREEN = ESC # js ''[32m''"

definition RED :: jsstring where
  "RED = ESC # js ''[31m''"

definition DIM :: jsstring where
  "DIM = ESC # js ''[2m''"

definition BG_ON :: jsstring where
  "BG_ON = ESC # js ''[48;5;236m''"

definition BG_OFF :: jsstring where
  "BG_OFF = ESC # js ''[49m''"

definition DOTS :: jsstring where
  "DOTS = [0xB7, 0xB7, 0xB7]"

text \<open>\<open>hunk.newLineNumber ?? hunk.oldLineNumber\<close>\<close>

definition currentLineNumber :: "DiffLine \<Rightarrow> int option" where
  "currentLineNumber hunk =
     (case newLineNumber hunk of Some n \<Rightarrow> Some n | None \<Rightarrow> oldLineNumber hunk)"

definition getMaxLineNumber :: "FileDiff \<Rightarrow> int" where
  "getMaxLineNumber d =
     foldl (\<lambda>mx hunk. max mx (case currentLineNumber hunk of Some n \<Rightarrow> n | None \<Rightarrow> 0))
       0 (hunks d)"

definition renderHunk :: "HighlightFn option \<Rightarrow> jsstring \<Rightarrow> DiffLine \<Rightarrow> nat \<Rightarrow> RenderedLine" where
  "renderHunk hl path hunk lineNumberWidth =
     (let lineNumber = (case currentLineNumber hunk of Some n \<Rightarrow> n | None \<Rightarrow> 0);
          lineNumStr = padStart (toString lineNumber) lineNumberWidth;
          prefix = (case type hunk of Added \<Rightarrow> js ''+'' | Removed \<Rightarrow> js ''-''
                    | Context \<Rightarrow> js '' '');
          color = (case type hunk of Added \<Rightarrow> GREEN | Removed \<Rightarrow> RED | Context \<Rightarrow> DIM);
          shown = (case type hunk of
                     Context \<Rightarrow> (case hl of Some f \<Rightarrow> f (content hunk) path
                                 | None \<Rightarrow> content hunk)
                   | _ \<Rightarrow> content hunk)
      in \<lparr>rcontent = color @ lineNumStr @ js '' '' @ prefix @ js '' '' @ shown @ RESET,
          rawContent = lineNumStr @ js '' '' @ prefix @ js '' '' @ content hunk\<rparr>)"

definition createSeparatorLine :: RenderedLine where
  "createSeparatorLine = \<lparr>rcontent = DIM @ DOTS @ RESET, rawContent = DOTS\<rparr>"

text \<open>
  The loop of \<open>buildRenderedLines\<close>: \<open>i\<close> is the index of the next hunk, \<open>previous\<close> the
  variable \<open>previousLineNumber\<close>, \<open>rl\<close> and \<open>idx\<close> the two arrays being filled.
\<close>

fun buildLoop :: "HighlightFn option \<Rightarrow> jsstring \<Rightarrow> nat \<Rightarrow> DiffLine list \<Rightarrow> int \<Rightarrow> int option
    \<Rightarrow> RenderedLine list \<Rightarrow> int list \<Rightarrow> RenderedLine list \<times> int list" where
  "buildLoop hl path w [] i previous rl idx = (rl, idx)"
| "buildLoop hl path w (hunk # rest) i previous rl idx =
     (let current = currentLineNumber hunk;
          gap = (case previous of None \<Rightarrow> False
                 | Some p \<Rightarrow> (case current of None \<Rightarrow> False | Some c \<Rightarrow> c > p + 1));
          rl1 = (if gap then rl @ [createSeparatorLine] else rl);
          idx1 = (if gap then idx @ [- 1] else idx);
          rl2 = rl1 @ [renderHunk hl path hunk w];
          idx2 = idx1 @ [i];
          previous' = (case current of Some c \<Rightarrow> Some c | None \<Rightarrow> previous)
      in buildLoop hl path w rest (i + 1) previous' rl2 idx2)"

definition buildRenderedLines :: "InlineDiffView \<Rightarrow> InlineDiffView" where
  "buildRenderedLines v =
     (if hunks (diff v) = [] then v\<lparr>renderedLines := [], lineToHunkIndex := []\<rparr>
      else
        (let lineNumberWidth = length (toString (getMaxLineNumber (diff v)));
             (rl, idx) = buildLoop (highlightFn v) (filePath (diff v)) lineNumberWidth
                           (hunks (diff v)) 0 None [] []
         in v\<lparr>renderedLines := rl, lineToHunkIndex := idx\<rparr>))"

text \<open>The constructor.\<close>

definition new_InlineDiffView :: "FileDiff \<Rightarrow> HighlightFn option \<Rightarrow> InlineDiffView" where
  "new_InlineDiffView d hl =
     buildRenderedLines
       \<lparr>diff = d, highlightFn = hl, renderedLines = [], scrollOffset = 0, cursorLine = 0,
        lineToHunkIndex = [], visualMode = False, visualAnchor = 0\<rparr>"

definition setDiff :: "InlineDiffView \<Rightarrow> FileDiff \<Rightarrow> InlineDiffView" where
  "setDiff v d =
     buildRenderedLines (v\<lparr>diff := d, scrollOffset := 0, cursorLine := 0, visualMode := False\<rparr>)"

definition enterVisualMode :: "InlineDiffView \<Rightarrow> InlineDiffView" where
  "enterVisualMode v = v\<lparr>visualMode := True, visualAnchor := cursorLine v\<rparr>"

definition exitVisualMode :: "InlineDiffView \<Rightarrow> InlineDiffView" where
  "exitVisualMode v = v\<lparr>visualMode := False\<rparr>"

definition getVisualRange :: "InlineDiffView \<Rightarrow> int \<times> int" where
  "getVisualRange v =
     (min (visualAnchor v) (cursorLine v), max (visualAnchor v) (cursorLine v))"

definition setCursor :: "InlineDiffView \<Rightarrow> int \<Rightarrow> InlineDiffView" where
  "setCursor v line =
     (let maxLine = max 0 (int (length (renderedLines v)) - 1)
      in v\<lparr>cursorLine := max 0 (min line maxLine)\<rparr>)"

definition moveCursor :: "InlineDiffView \<Rightarrow> int \<Rightarrow> InlineDiffView" where
  "moveCursor v delta = setCursor v (cursorLine v + delta)"

definition scrollUp :: "InlineDiffView \<Rightarrow> int \<Rightarrow> InlineDiffView" where
  "scrollUp v n = moveCursor (v\<lparr>scrollOffset := max 0 (scrollOffset v - n)\<rparr>) (- n)"

definition scrollDown :: "InlineDiffView \<Rightarrow> int \<Rightarrow> InlineDiffView" where
  "scrollDown v n =
     moveCursor
       (v\<lparr>scrollOffset := min (max 0 (int (length (renderedLines v)))) (scrollOffset v + n)\<rparr>)
       n"

definition scrollToTop :: "InlineDiffView \<Rightarrow> InlineDiffView" where
  "scrollToTop v = v\<lparr>scrollOffset := 0, cursorLine := 0\<rparr>"

definition scrollToBottom :: "InlineDiffView \<Rightarrow> InlineDiffView" where
  "scrollToBottom v =
     v\<lparr>scrollOffset := max 0 (int (length (renderedLines v))),
       cursorLine := max 0 (int (length (renderedLines v)) - 1)\<rparr>"

definition totalLines :: "InlineDiffView \<Rightarrow> int" where
  "totalLines v = int (length (renderedLines v))"

definition isSeparatorLine :: "InlineDiffView \<Rightarrow> int \<Rightarrow> bool" where
  "isSeparatorLine v index =
     (if index < 0 \<or> index \<ge> int (length (lineToHunkIndex v)) then False
      else at_index (lineToHunkIndex v) index = Some (- 1))"

definition getCursorDiffLine :: "InlineDiffView \<Rightarrow> DiffLine option" where
  "getCursorDiffLine v =
     (if renderedLines v = [] then None
      else (case at_index (lineToHunkIndex v) (cursorLine v) of
              None \<Rightarrow> None
            | Some hunkIndex \<Rightarrow>
                if hunkIndex = - 1 then None else at_index (hunks (diff v)) hunkIndex))"

text \<open>
  The loop of \<open>getSelectedRawLines\<close> over \<open>i = min, \<dots>, max\<close>.  Reading \<open>rawContent\<close> of
  an element that is \<open>undefined\<close> would throw a TypeError.
\<close>

fun collectRaw :: "RenderedLine list \<Rightarrow> int list \<Rightarrow> jsstring list \<Rightarrow> js_error + jsstring list" where
  "collectRaw rl [] selectedLines = Inr selectedLines"
| "collectRaw rl (i # rest) selectedLines =
     (if i \<ge> 0 \<and> i < int (length rl) then
        (case at_index rl i of
           None \<Rightarrow> Inl TypeError
         | Some line \<Rightarrow> collectRaw rl rest (selectedLines @ [rawContent line]))
      else collectRaw rl rest selectedLines)"

definition getSelectedRawLines :: "InlineDiffView \<Rightarrow> js_error + jsstring list" where
  "getSelectedRawLines v =
     (case getVisualRange v of (mn, mx) \<Rightarrow> collectRaw (renderedLines v) [mn..mx] [])"

text \<open>
  The loop of \<open>getSelectedDiffLines\<close>.  The element pushed is \<open>this.diff.hunks[hunkIndex]\<close>,
  which JavaScript evaluates to \<open>undefined\<close> (here \<open>None\<close>) outside the array.
\<close>

fun collectDiffLines :: "InlineDiffView \<Rightarrow> int list \<Rightarrow> DiffLine option list \<Rightarrow> DiffLine option list" where
  "collectDiffLines v [] selected = selected"
| "collectDiffLines v (i # rest) selected =
     (if i \<ge> 0 \<and> i < int (length (lineToHunkIndex v)) then
        (case at_index (lineToHunkIndex v) i of
           None \<Rightarrow> collectDiffLines v rest selected
         | Some hunkIndex \<Rightarrow>
             if hunkIndex \<noteq> - 1
             then collectDiffLines v rest (selected @ [at_index (hunks (diff v)) hunkIndex])
             else collectDiffLines v rest selected)
      else collectDiffLines v rest selected)"

definition getSelectedDiffLines :: "InlineDiffView \<Rightarrow> DiffLine option list" where
  "getSelectedDiffLines v =
     (case getVisualRange v of (mn, mx) \<Rightarrow> collectDiffLines v [mn..mx] [])"

text \<open>
  The loop of \<open>truncateToWidth\<close> over the characters of the line.  \<open>break\<close> returns the
  result built so far.
\<close>

fun truncLoop :: "int \<Rightarrow> jsstring \<Rightarrow> int \<Rightarrow> jsstring \<Rightarrow> bool \<Rightarrow> jsstring \<Rightarrow> jsstring" where
  "truncLoop width [] visibleLength result inEscape escapeSequence = result"
| "truncLoop width (char # rest) visibleLength result inEscape escapeSequence =
     (if char = ESC then truncLoop width rest visibleLength result True [char]
      else if inEscape then
        (if char = CH_m
         then truncLoop width rest visibleLength (result @ (escapeSequence @ [char])) False []
         else truncLoop width rest visibleLength result True (escapeSequence @ [char]))
      else if visibleLength \<ge> width then result
      else truncLoop width rest (visibleLength + 1) (result @ [char]) False escapeSequence)"

definition truncateToWidth :: "jsstring \<Rightarrow> int \<Rightarrow> jsstring" where
  "truncateToWidth line width =
     (let result = truncLoop width line 0 [] False []
      in if includes_str result CSI \<and> \<not> endsWith result RESET then result @ RESET
         else result)"

text \<open>\<open>content.replace(/\x1b\[0m$/, '\x1b[49m\x1b[0m')\<close>: only a reset at the very end matches.\<close>

definition replaceFinalReset :: "jsstring \<Rightarrow> jsstring" where
  "replaceFinalReset s =
     (if endsWith s RESET then take (length s - length RESET) s @ BG_OFF @ RESET else s)"

text \<open>The callback of \<open>visibleLines.map\<close> in \<open>render\<close>, for the row at index \<open>lineIndex\<close>.\<close>

definition renderLine :: "InlineDiffView \<Rightarrow> int \<Rightarrow> int \<Rightarrow> RenderedLine \<Rightarrow> jsstring" where
  "renderLine v width lineIndex line =
     (let inVisualRange =
            (if visualMode v
             then (case getVisualRange v of (mn, mx) \<Rightarrow> lineIndex \<ge> mn \<and> lineIndex \<le> mx)
             else False);
          shown = (if inVisualRange \<or> lineIndex = cursorLine v
                   then BG_ON @ replaceFinalReset (rcontent line)
                   else rcontent line)
      in truncateToWidth shown width)"

text \<open>\<open>render\<close> returns the rows and the view with its corrected scroll offset.\<close>

definition render :: "InlineDiffView \<Rightarrow> int \<Rightarrow> int \<Rightarrow> jsstring list \<times> InlineDiffView" where
  "render v width visibleHeight =
     (let so1 = (if cursorLine v \<ge> scrollOffset v + visibleHeight
                 then cursorLine v - visibleHeight + 1 else scrollOffset v);
          so2 = (if cursorLine v < so1 then cursorLine v else so1);
          maxOffset = max 0 (int (length (renderedLines v)) - visibleHeight);
          offset = min so2 maxOffset;
          v' = v\<lparr>scrollOffset := offset\<rparr>;
          endIndex = min (offset + visibleHeight) (int (length (renderedLines v)));
          visibleLines = slice (renderedLines v) offset endIndex
      in (map (\<lambda>(line, index). renderLine v' width (offset + int index) line)
            (zip visibleLines [0 ..< length visibleLines]),
          v'))"

section \<open>Where the view puts separators\<close>

text \<open>
  The anchors (\<open>newLineNumber ?? oldLineNumber\<close>) that are defined among the first \<open>i\<close>
  records, in order, and the last element of a list if there is one.
\<close>

definition lastOpt :: "'a list \<Rightarrow> 'a option" where
  "lastOpt xs = (if xs = [] then None else Some (last xs))"

definition anchorsBefore :: "DiffLine list \<Rightarrow> nat \<Rightarrow> int list" where
  "anchorsBefore hs i = List.map_filter currentLineNumber (take i hs)"

text \<open>
  A separator precedes record \<open>i\<close>: some earlier record has an anchor, record \<open>i\<close> has
  one, and it is greater than the latest earlier anchor plus one.
\<close>

definition separatorBefore :: "DiffLine list \<Rightarrow> nat \<Rightarrow> bool" where
  "separatorBefore hs i =
     (case (lastOpt (anchorsBefore hs i), currentLineNumber (hs ! i)) of
        (Some p, Some c) \<Rightarrow> c > p + 1
      | _ \<Rightarrow> False)"

definition expectedIndex :: "DiffLine list \<Rightarrow> nat list \<Rightarrow> int list" where
  "expectedIndex hs is =
     concat (map (\<lambda>i. (if separatorBefore hs i then [- 1] else []) @ [int i]) is)"

definition expectedRows :: "HighlightFn option \<Rightarrow> jsstring \<Rightarrow> nat \<Rightarrow> DiffLine list \<Rightarrow> nat list
    \<Rightarrow> RenderedLine list" where
  "expectedRows hl path w hs is =
     concat (map (\<lambda>i. (if separatorBefore hs i then [createSeparatorLine] else [])
                        @ [renderHunk hl path (hs ! i) w]) is)"

text \<open>
  The rule as the specification words it, for a record \<open>cur\<close> appended right after
  \<open>prev\<close>: both anchors are defined and the current one is not the previous one plus one.
\<close>

definition spec_separator :: "DiffLine \<Rightarrow> DiffLine \<Rightarrow> bool" where
  "spec_separator prev cur =
     (case (currentLineNumber prev, currentLineNumber cur) of
        (Some p, Some c) \<Rightarrow> c \<noteq> p + 1
      | _ \<Rightarrow> False)"

text \<open>
  Example diffs: four context lines with a gap, and the diff of the repository's tests
  with a modified line (removed, then added).
\<close>

definition contextLine :: "jsstring \<Rightarrow> int \<Rightarrow> int \<Rightarrow> DiffLine" where
  "contextLine text old new =
     \<lparr>type = Context, content = text, oldLineNumber = Some old, newLineNumber = Some new\<rparr>"

definition gapDiff :: FileDiff where
  "gapDiff =
     \<lparr>filePath = js ''test.ts'', isNewFile = False,
      hunks = [contextLine (js ''line 1'') 1 1, contextLine (js ''line 2'') 2 2,
               contextLine (js ''line 10'') 10 10, contextLine (js ''line 11'') 11 11],
      additions = 0, deletions = 0\<rparr>"

definition modifiedDiff :: FileDiff where
  "modifiedDiff =
     \<lparr>filePath = js ''test.ts'', isNewFile = False,
      hunks = [contextLine (js ''line 1'') 1 1,
               \<lparr>type = Removed, content = js ''line 2 old'',
                oldLineNumber = Some 2, newLineNumber = None\<rparr>,
               \<lparr>type = Added, content = js ''line 2 new'',
                oldLineNumber = None, newLineNumber = Some 2\<rparr>,
               \<lparr>type = Added, content = js ''line 3 new'',
                oldLineNumber = None, newLineNumber = Some 3\<rparr>,
               contextLine (js ''line 4'') 3 4],
      additions = 2, deletions = 1\<rparr>"

section \<open>What the truncation loop counts\<close>

text \<open>
  An auxiliary function for the proofs about \<open>truncateToWidth\<close>: the characters its loop
  counts towards the width, those outside a stretch from an ESC character to the next
  \<open>m\<close> (an ESC inside such a stretch starts it afresh).  This is the loop's own rule, not
  the escape pattern of the repository (\<open>stripAnsi\<close> below); the two agree on rows whose
  escapes are all colour sequences.
\<close>

fun visibleChars :: "bool \<Rightarrow> jsstring \<Rightarrow> jsstring" where
  "visibleChars inEscape [] = []"
| "visibleChars inEscape (c # cs) =
     (if c = ESC then visibleChars True cs
      else if inEscape then visibleChars (c \<noteq> CH_m) cs
      else c # visibleChars False cs)"

text \<open>
  The state of the loop of \<open>truncateToWidth\<close> is consistent: while \<open>inEscape\<close> holds,
  \<open>escapeSequence\<close> is an ESC followed by characters that are neither ESC nor \<open>m\<close>.
\<close>

definition openEscape :: "bool \<Rightarrow> jsstring \<Rightarrow> bool" where
  "openEscape inEscape escapeSequence =
     (inEscape \<longrightarrow> (\<exists>t. escapeSequence = ESC # t \<and> ESC \<notin> set t \<and> CH_m \<notin> set t))"

section \<open>The public operations of the view and its invariant\<close>

datatype view_op =
    SetDiff FileDiff
  | MoveCursor int
  | SetCursor int
  | ScrollUp int
  | ScrollDown int
  | ScrollToTop
  | ScrollToBottom
  | EnterVisualMode
  | ExitVisualMode
  | Render int int
  | GetVisualRange
  | GetSelectedRawLines
  | GetSelectedDiffLines

text \<open>
  One call on the view: the view afterwards, or the exception thrown.  The getters leave
  the view as it is.
\<close>

fun apply_op :: "InlineDiffView \<Rightarrow> view_op \<Rightarrow> js_error + InlineDiffView" where
  "apply_op v (SetDiff d) = Inr (setDiff v d)"
| "apply_op v (MoveCursor delta) = Inr (moveCursor v delta)"
| "apply_op v (SetCursor line) = Inr (setCursor v line)"
| "apply_op v (ScrollUp n) = Inr (scrollUp v n)"
| "apply_op v (ScrollDown n) = Inr (scrollDown v n)"
| "apply_op v ScrollToTop = Inr (scrollToTop v)"
| "apply_op v ScrollToBottom = Inr (scrollToBottom v)"
| "apply_op v EnterVisualMode = Inr (enterVisualMode v)"
| "apply_op v ExitVisualMode = Inr (exitVisualMode v)"
| "apply_op v (Render width height) = Inr (snd (render v width height))"
| "apply_op v GetVisualRange = Inr v"
| "apply_op v GetSelectedRawLines =
     (case getSelectedRawLines v of Inl e \<Rightarrow> Inl e | Inr _ \<Rightarrow> Inr v)"
| "apply_op v GetSelectedDiffLines = Inr v"

fun run_ops :: "InlineDiffView \<Rightarrow> view_op list \<Rightarrow> js_error + InlineDiffView" where
  "run_ops v [] = Inr v"
| "run_ops v (op # ops) =
     (case apply_op v op of Inl e \<Rightarrow> Inl e | Inr v' \<Rightarrow> run_ops v' ops)"

text \<open>The invariant of the view state.\<close>

definition view_inv :: "InlineDiffView \<Rightarrow> bool" where
  "view_inv v =
     ((if renderedLines v = [] then cursorLine v = 0
       else 0 \<le> cursorLine v \<and> cursorLine v < int (length (renderedLines v)))
      \<and> 0 \<le> scrollOffset v)"

text \<open>
  The argument of a scroll-down call does not take the offset below zero (every
  \<open>n \<ge> 0\<close> is such an argument when the invariant holds).
\<close>

fun scroll_arg_ok :: "InlineDiffView \<Rightarrow> view_op \<Rightarrow> bool" where
  "scroll_arg_ok v (ScrollDown n) = (0 \<le> scrollOffset v + n)"
| "scroll_arg_ok v _ = True"

text \<open>A call whose scroll-down amount, if it is one, is not negative.\<close>

fun nonneg_scroll :: "view_op \<Rightarrow> bool" where
  "nonneg_scroll (ScrollDown n) = (0 \<le> n)"
| "nonneg_scroll _ = True"

text \<open>
  The scroll correction of \<open>render\<close> as the specification words it: the two corrections
  in turn, then the clamp into \<open>[0, max(0, rows - height)]\<close>.
\<close>

definition spec_autoscroll :: "int \<Rightarrow> int \<Rightarrow> int \<Rightarrow> int \<Rightarrow> int" where
  "spec_autoscroll cursorRow offset height rows =
     (let s1 = (if cursorRow \<ge> offset + height then cursorRow - height + 1 else offset);
          s2 = (if cursorRow < s1 then cursorRow else s1)
      in max 0 (min s2 (max 0 (rows - height))))"

text \<open>
  The offset after a scroll by a signed amount as the specification words it: adjusted by
  the amount and clamped to stay \<open>\<ge> 0\<close>.
\<close>

definition spec_scrollBy :: "int \<Rightarrow> int \<Rightarrow> int" where
  "spec_scrollBy offset amount = max 0 (offset + amount)"

text \<open>The cursor clamped into \<open>[0, rows - 1]\<close>, or 0 when there are no rows.\<close>

definition clampCursor :: "InlineDiffView \<Rightarrow> int \<Rightarrow> int" where
  "clampCursor v line =
     (if renderedLines v = [] then 0
      else if line < 0 then 0
      else if line > int (length (renderedLines v)) - 1 then int (length (renderedLines v)) - 1
      else line)"

section \<open>Well-formed styled rows\<close>

text \<open>
  \<open>completeEscapes\<close>: read with the recogniser of \<open>truncateToWidth\<close>, the string holds
  complete escape sequences only: no ESC interrupts a sequence and none is open at the end.
\<close>

fun completeEscapes :: "bool \<Rightarrow> jsstring \<Rightarrow> bool" where
  "completeEscapes inEscape [] = (\<not> inEscape)"
| "completeEscapes inEscape (c # cs) =
     (if c = ESC then \<not> inEscape \<and> completeEscapes True cs
      else if inEscape then completeEscapes (c \<noteq> CH_m) cs
      else completeEscapes False cs)"

text \<open>
  A row as \<open>renderHunk\<close> and \<open>createSeparatorLine\<close> write it: a colour code, a body and
  the reset.  \<open>styledRows\<close> says that every row of the view has this shape.
\<close>

definition colored :: "jsstring \<Rightarrow> bool" where
  "colored s = (\<exists>c body. c \<in> {GREEN, RED, DIM} \<and> s = c @ body @ RESET)"

definition styledRows :: "InlineDiffView \<Rightarrow> bool" where
  "styledRows v = (\<forall>line \<in> set (renderedLines v). colored (rcontent line))"

section \<open>The snapshot ledger (diff-state.ts)\<close>

record FileSnapshot =
  originalContent :: jsstring
  currentContent :: jsstring

text \<open>
  The ledger is a JavaScript \<open>Map\<close> from paths to snapshots, which keeps insertion order:
  an association list with one entry for each tracked path.
\<close>

type_synonym DiffState = "(jsstring \<times> FileSnapshot) list"

definition isTracked :: "DiffState \<Rightarrow> jsstring \<Rightarrow> bool" where
  "isTracked ds fpath = (map_of ds fpath \<noteq> None)"

definition updateFile :: "DiffState \<Rightarrow> jsstring \<Rightarrow> jsstring \<Rightarrow> DiffState" where
  "updateFile ds fpath current =
     map (\<lambda>(p, snapshot). if p = fpath then (p, snapshot\<lparr>currentContent := current\<rparr>)
                             else (p, snapshot)) ds"

definition trackFile :: "DiffState \<Rightarrow> jsstring \<Rightarrow> jsstring \<Rightarrow> jsstring \<Rightarrow> DiffState" where
  "trackFile ds fpath original current =
     (if isTracked ds fpath then updateFile ds fpath current
      else ds @ [(fpath, \<lparr>originalContent = original, currentContent = current\<rparr>)])"

definition getFileDiff :: "structuredPatch \<Rightarrow> DiffState \<Rightarrow> jsstring \<Rightarrow> FileDiff option" where
  "getFileDiff sp ds fpath =
     (case map_of ds fpath of
        None \<Rightarrow> None
      | Some snapshot \<Rightarrow>
          Some (computeDiff sp fpath (originalContent snapshot) (currentContent snapshot)))"

definition getChangedFiles :: "DiffState \<Rightarrow> jsstring list" where
  "getChangedFiles ds =
     map fst (filter (\<lambda>(p, snapshot). originalContent snapshot \<noteq> currentContent snapshot) ds)"

definition dismissFile :: "DiffState \<Rightarrow> jsstring \<Rightarrow> DiffState" where
  "dismissFile ds fpath =
     map (\<lambda>(p, snapshot).
            if p = fpath then (p, snapshot\<lparr>originalContent := currentContent snapshot\<rparr>)
            else (p, snapshot)) ds"

definition pendingCount :: "DiffState \<Rightarrow> int" where
  "pendingCount ds = int (length (getChangedFiles ds))"

section \<open>The file navigator (modal.ts)\<close>

text \<open>
  An entry of the file list; \<open>entry_path\<close>, \<open>entry_additions\<close>, \<open>entry_deletions\<close>
  and \<open>entry_isNewFile\<close> are the fields \<open>path\<close>, \<open>additions\<close>, \<open>deletions\<close> and
  \<open>isNewFile\<close> of the source's \<open>ModalFileEntry\<close>.
\<close>

record ModalFileEntry =
  entry_path :: jsstring
  entry_additions :: int
  entry_deletions :: int
  entry_isNewFile :: bool

text \<open>
  The modal holds a reference to the ledger, which the host changes as files are edited;
  here the ledger is a field, and a change by the host is an update of that field.
\<close>

record DiffReviewModal =
  diffState :: DiffState
  selectedIndex :: int
  fileList :: "ModalFileEntry list"
  filePickerOpen :: bool
  filePickerIndex :: int

text \<open>\<open>a % b\<close> on integers: the sign follows the dividend.\<close>

definition js_rem :: "int \<Rightarrow> int \<Rightarrow> int" where
  "js_rem a b = sgn a * (\<bar>a\<bar> mod \<bar>b\<bar>)"

definition refresh :: "structuredPatch \<Rightarrow> DiffReviewModal \<Rightarrow> DiffReviewModal" where
  "refresh sp m =
     (let changedFiles = getChangedFiles (diffState m);
          files = map (\<lambda>p. (case getFileDiff sp (diffState m) p of
                               None \<Rightarrow> \<lparr>entry_path = p, entry_additions = 0, entry_deletions = 0,
                                        entry_isNewFile = False\<rparr>
                             | Some d \<Rightarrow> \<lparr>entry_path = p, entry_additions = additions d,
                                          entry_deletions = deletions d,
                                          entry_isNewFile = isNewFile d\<rparr>)) changedFiles;
          m1 = m\<lparr>fileList := files\<rparr>
      in if files = [] then m1\<lparr>selectedIndex := 0\<rparr>
         else if selectedIndex m1 \<ge> int (length files)
         then m1\<lparr>selectedIndex := int (length files) - 1\<rparr>
         else m1)"

definition new_DiffReviewModal :: "structuredPatch \<Rightarrow> DiffState \<Rightarrow> DiffReviewModal" where
  "new_DiffReviewModal sp ds =
     refresh sp \<lparr>diffState = ds, selectedIndex = 0, fileList = [], filePickerOpen = False,
                 filePickerIndex = 0\<rparr>"

definition selectedFile :: "DiffReviewModal \<Rightarrow> jsstring option" where
  "selectedFile m =
     (if fileList m = [] then None
      else (case at_index (fileList m) (selectedIndex m) of
              None \<Rightarrow> None | Some entry \<Rightarrow> Some (entry_path entry)))"

definition selectNext :: "DiffReviewModal \<Rightarrow> DiffReviewModal" where
  "selectNext m =
     (if fileList m = [] then m
      else m\<lparr>selectedIndex := js_rem (selectedIndex m + 1) (int (length (fileList m)))\<rparr>)"

definition selectPrevious :: "DiffReviewModal \<Rightarrow> DiffReviewModal" where
  "selectPrevious m =
     (if fileList m = [] then m
      else m\<lparr>selectedIndex := (if selectedIndex m = 0 then int (length (fileList m)) - 1
                               else selectedIndex m - 1)\<rparr>)"

definition selectIndex :: "DiffReviewModal \<Rightarrow> int \<Rightarrow> DiffReviewModal" where
  "selectIndex m index =
     (if fileList m = [] then m\<lparr>selectedIndex := 0\<rparr>
      else m\<lparr>selectedIndex := max 0 (min index (int (length (fileList m)) - 1))\<rparr>)"

definition getSelectedDiff :: "structuredPatch \<Rightarrow> DiffReviewModal \<Rightarrow> FileDiff option" where
  "getSelectedDiff sp m =
     (case selectedFile m of
        None \<Rightarrow> None
      | Some selectedPath \<Rightarrow>
          if selectedPath = [] then None else getFileDiff sp (diffState m) selectedPath)"

text \<open>
  \<open>dismissSelected\<close> returns its boolean and the modal afterwards.  The test
  \<open>!selectedPath\<close> also holds for the empty string.
\<close>

definition dismissSelected :: "structuredPatch \<Rightarrow> DiffReviewModal \<Rightarrow> bool \<times> DiffReviewModal" where
  "dismissSelected sp m =
     (case selectedFile m of
        None \<Rightarrow> (False, m)
      | Some selectedPath \<Rightarrow>
          if selectedPath = [] then (False, m)
          else
            (let m1 = refresh sp (m\<lparr>diffState := dismissFile (diffState m) selectedPath\<rparr>);
                 m2 = (if selectedIndex m1 \<ge> int (length (fileList m1))
                          \<and> int (length (fileList m1)) > 0
                       then m1\<lparr>selectedIndex := int (length (fileList m1)) - 1\<rparr>
                       else m1)
             in (True, m2)))"

definition openFilePicker :: "DiffReviewModal \<Rightarrow> DiffReviewModal" where
  "openFilePicker m = m\<lparr>filePickerOpen := True, filePickerIndex := selectedIndex m\<rparr>"

definition closeFilePicker :: "DiffReviewModal \<Rightarrow> DiffReviewModal" where
  "closeFilePicker m = m\<lparr>filePickerOpen := False\<rparr>"

definition filePickerNext :: "DiffReviewModal \<Rightarrow> DiffReviewModal" where
  "filePickerNext m =
     (if fileList m = [] then m
      else m\<lparr>filePickerIndex := js_rem (filePickerIndex m + 1) (int (length (fileList m)))\<rparr>)"

definition filePickerPrevious :: "DiffReviewModal \<Rightarrow> DiffReviewModal" where
  "filePickerPrevious m =
     (if fileList m = [] then m
      else m\<lparr>filePickerIndex := (if filePickerIndex m = 0 then int (length (fileList m)) - 1
                                 else filePickerIndex m - 1)\<rparr>)"

definition confirmFilePickerSelection :: "DiffReviewModal \<Rightarrow> DiffReviewModal" where
  "confirmFilePickerSelection m =
     m\<lparr>selectedIndex := filePickerIndex m, filePickerOpen := False\<rparr>"

text \<open>
  The invariant of the session state: the selection is inside the file list (0 when the
  list is empty), and so is the picker index while the picker is open.
\<close>

definition index_ok :: "ModalFileEntry list \<Rightarrow> int \<Rightarrow> bool" where
  "index_ok files i = (if files = [] then i = 0 else 0 \<le> i \<and> i < int (length files))"

definition modal_inv :: "DiffReviewModal \<Rightarrow> bool" where
  "modal_inv m =
     (index_ok (fileList m) (selectedIndex m)
      \<and> (if filePickerOpen m then index_ok (fileList m) (filePickerIndex m) else True))"

text \<open>A ledger with two changed files, as in the repository's tests.\<close>

definition twoFiles :: DiffState where
  "twoFiles =
     trackFile (trackFile [] (js ''file1.ts'') (js ''a'') (js ''b''))
       (js ''file2.ts'') (js ''c'') (js ''d'')"

section \<open>The overlay (overlay.ts): render\<close>

text \<open>
  What the overlay gets from its host: the terminal height (optional), the theme's two
  functions, the width-aware truncation of the key utilities, and the title option.
  \<open>roundPercent a b\<close> stands for \<open>Math.round((a / b) * 100)\<close>, a floating-point
  computation that only supplies the number printed in the scroll indicator.
\<close>

record OverlayEnv =
  tui_height :: "int option"
  theme_fg :: "jsstring \<Rightarrow> jsstring \<Rightarrow> jsstring"
  theme_bold :: "jsstring \<Rightarrow> jsstring"
  utils_truncateToWidth :: "jsstring \<Rightarrow> int \<Rightarrow> jsstring"
  opt_title :: "jsstring option"
  roundPercent :: "int \<Rightarrow> int \<Rightarrow> int"

text \<open>
  The state the handler closes over: the modal and the view controller (or \<open>null\<close>).
  \<open>DiffViewController\<close> forwards every call to the \<open>InlineDiffView\<close> it wraps, so the
  controller is that view.
\<close>

record OverlayState =
  modal :: DiffReviewModal
  viewController :: "InlineDiffView option"

definition buildViewController :: "structuredPatch \<Rightarrow> HighlightFn \<Rightarrow> OverlayState \<Rightarrow> OverlayState" where
  "buildViewController sp highlightProvider st =
     (case getSelectedDiff sp (modal st) of
        Some d \<Rightarrow> st\<lparr>viewController := Some (new_InlineDiffView d (Some highlightProvider))\<rparr>
      | None \<Rightarrow> st\<lparr>viewController := None\<rparr>)"

text \<open>\<open>Math.max(20, Math.floor(termHeight * 0.75))\<close> with \<open>termHeight = tui.height ?? 40\<close>.\<close>

definition targetHeight :: "OverlayEnv \<Rightarrow> int" where
  "targetHeight env =
     (let termHeight = (case tui_height env of Some h \<Rightarrow> h | None \<Rightarrow> 40)
      in max 20 ((termHeight * 3) div 4))"

text \<open>
  \<open>s.repeat(n)\<close> where the source has made the count non-negative with \<open>Math.max\<close>, so
  that no RangeError is possible.
\<close>

definition repeat_nonneg :: "jsstring \<Rightarrow> int \<Rightarrow> jsstring" where
  "repeat_nonneg s n = concat (replicate (nat n) s)"

text \<open>\<open>s.replace(/\x1b\[[0-9;]*m/g, "")\<close>\<close>

definition isParamChar :: "jschar \<Rightarrow> bool" where
  "isParamChar c = ((0x30 \<le> c \<and> c \<le> 0x39) \<or> c = 0x3B)"

function stripAnsi :: "jsstring \<Rightarrow> jsstring" where
  "stripAnsi [] = []"
| "stripAnsi (c # cs) =
     (if c = ESC \<and> cs \<noteq> [] \<and> hd cs = 0x5B
         \<and> dropWhile isParamChar (tl cs) \<noteq> []
         \<and> hd (dropWhile isParamChar (tl cs)) = CH_m
      then stripAnsi (tl (dropWhile isParamChar (tl cs)))
      else c # stripAnsi cs)"
  by pat_completeness auto
termination
proof (relation "measure length")
  show "wf (measure length)" by simp
next
  fix c :: jschar and cs :: jsstring
  have "length (tl (dropWhile isParamChar (tl cs))) \<le> length (dropWhile isParamChar (tl cs))"
    by simp
  also have "\<dots> \<le> length (tl cs)"
    by (rule length_dropWhile_le)
  also have "\<dots> \<le> length cs" by simp
  finally show "(tl (dropWhile isParamChar (tl cs)), c # cs) \<in> measure length"
    by simp
next
  fix c :: jschar and cs :: jsstring
  show "(cs, c # cs) \<in> measure length" by simp
qed

definition border :: "OverlayEnv \<Rightarrow> jsstring" where
  "border env = theme_fg env (js ''border'') [0x2502]"

definition padLine :: "OverlayEnv \<Rightarrow> int \<Rightarrow> jsstring \<Rightarrow> jsstring" where
  "padLine env width line =
     (let innerWidth = width - 4;
          truncated = utils_truncateToWidth env line innerWidth;
          visible = int (length (stripAnsi truncated));
          rightPad = max 0 (innerWidth - visible)
      in border env @ js '' '' @ truncated @ repeat_nonneg (js '' '') rightPad @ js '' ''
         @ border env)"

definition emptyLine :: "OverlayEnv \<Rightarrow> int \<Rightarrow> js_error + jsstring" where
  "emptyLine env width =
     (case repeat (js '' '') (width - 2) of
        Inl e \<Rightarrow> Inl e
      | Inr spaces \<Rightarrow> Inr (border env @ spaces @ border env))"

text \<open>The three kinds of content, without borders.\<close>

definition noFilesContent :: "OverlayEnv \<Rightarrow> jsstring list" where
  "noFilesContent env =
     [theme_fg env (js ''muted'') (js ''No files to review''),
      [],
      theme_fg env (js ''dim'') (js ''Press Escape to close'')]"

definition statsText :: "ModalFileEntry \<Rightarrow> jsstring" where
  "statsText file =
     js '' +'' @ toString (entry_additions file) @ js ''/-'' @ toString (entry_deletions file)"

definition pickerRow :: "OverlayEnv \<Rightarrow> DiffReviewModal \<Rightarrow> ModalFileEntry \<Rightarrow> nat \<Rightarrow> jsstring" where
  "pickerRow env m file i =
     (let selected = (int i = filePickerIndex m);
          prefix = (if selected then [0x25B8, 0x20] else js ''  '');
          name = (if selected then theme_fg env (js ''accent'') (entry_path file)
                  else theme_fg env (js ''text'') (entry_path file));
          stats = theme_fg env (js ''muted'') (statsText file);
          tag = (if entry_isNewFile file then theme_fg env (js ''success'') (js '' [new]'')
                 else [])
      in prefix @ name @ stats @ tag)"

definition pickerContent :: "OverlayEnv \<Rightarrow> DiffReviewModal \<Rightarrow> jsstring list" where
  "pickerContent env m =
     [theme_fg env (js ''accent'') (theme_bold env (js ''File Picker'')), []]
     @ map (\<lambda>(file, i). pickerRow env m file i)
         (zip (fileList m) [0 ..< length (fileList m)])
     @ [[],
        theme_fg env (js ''dim'')
          ([0x2191, 0x2193] @ js '' navigate  Enter select  Esc cancel'')]"

text \<open>
  The diff view.  \<open>currentFile.path\<close> throws a TypeError when the selection is outside the
  file list, and \<open>"\<dots>".repeat(innerWidth)\<close> a RangeError when \<open>innerWidth < 0\<close>; both
  happen before the view controller is asked to render.
\<close>

definition diffContent :: "OverlayEnv \<Rightarrow> int \<Rightarrow> OverlayState
    \<Rightarrow> js_error + (jsstring list \<times> InlineDiffView option)" where
  "diffContent env width st =
     (let m = modal st;
          innerWidth = width - 4
      in case at_index (fileList m) (selectedIndex m) of
           None \<Rightarrow> Inl TypeError
         | Some currentFile \<Rightarrow>
            (let fileIndex = selectedIndex m + 1;
                 totalFiles = int (length (fileList m));
                 fileNumStr = js ''['' @ toString fileIndex @ js ''/'' @ toString totalFiles
                              @ js '']'';
                 filePathStr = theme_fg env (js ''accent'') (entry_path currentFile);
                 statsStr = theme_fg env (js ''muted'') (statsText currentFile);
                 rightIndicator =
                   (case viewController st of
                      Some vc \<Rightarrow> if visualMode vc then js ''VISUAL LINE'' else []
                    | None \<Rightarrow> []);
                 leftSide = fileNumStr @ js '' '' @ filePathStr @ statsStr;
                 leftSideStripped = fileNumStr @ js '' '' @ entry_path currentFile
                                    @ statsText currentFile;
                 hPadding = max 1 (innerWidth - int (length leftSideStripped)
                                   - int (length rightIndicator));
                 header = leftSide @ repeat_nonneg (js '' '') hPadding
                          @ theme_fg env (js ''accent'') rightIndicator
             in case repeat [0x2500] innerWidth of
                  Inl e \<Rightarrow> Inl e
                | Inr rule \<Rightarrow>
                   (case viewController st of
                      None \<Rightarrow>
                        Inr ([header, theme_fg env (js ''border'') rule], None)
                    | Some vc \<Rightarrow>
                       (let availableHeight = max 5 (targetHeight env - 8);
                            (diffLines, vc') = render vc innerWidth availableHeight;
                            indicator =
                              (if totalLines vc' > availableHeight
                               then [theme_fg env (js ''dim'')
                                       ([0x2500, 0x2500, 0x20]
                                        @ toString (min (roundPercent env
                                              (scrollOffset vc' + availableHeight)
                                              (totalLines vc')) 100)
                                        @ js ''% '' @ [0x2500, 0x2500])]
                               else [])
                        in Inr ([header, theme_fg env (js ''border'') rule] @ diffLines
                                @ indicator, Some vc')))))"

text \<open>The first and the last row.\<close>

definition titleOf :: "OverlayEnv \<Rightarrow> jsstring" where
  "titleOf env = (case opt_title env of Some t \<Rightarrow> t | None \<Rightarrow> js ''Diff Review'')"

definition topBorder :: "OverlayEnv \<Rightarrow> int \<Rightarrow> jsstring" where
  "topBorder env width =
     (let titleText = js '' '' @ titleOf env @ js '' '';
          topBorderLeft = [0x256D, 0x2500];
          topBorderRight =
            repeat_nonneg [0x2500]
              (max 0 (width - int (length topBorderLeft) - int (length titleText) - 1))
            @ [0x256E]
      in theme_fg env (js ''border'') topBorderLeft
         @ theme_fg env (js ''accent'') (theme_bold env titleText)
         @ theme_fg env (js ''border'') topBorderRight)"

definition bottomBorder :: "OverlayEnv \<Rightarrow> int \<Rightarrow> js_error + jsstring" where
  "bottomBorder env width =
     (case repeat [0x2500] (width - 2) of
        Inl e \<Rightarrow> Inl e
      | Inr rule \<Rightarrow> Inr (theme_fg env (js ''border'') ([0x2570] @ rule @ [0x256F])))"

text \<open>\<open>while (output.length < targetHeight - 1) output.push(emptyLine())\<close>\<close>

function padLoop :: "jsstring list \<Rightarrow> int \<Rightarrow> jsstring \<Rightarrow> jsstring list" where
  "padLoop output target emptyRow =
     (if int (length output) < target - 1 then padLoop (output @ [emptyRow]) target emptyRow
      else output)"
  by pat_completeness auto
termination
  by (relation "measure (\<lambda>(output, target, emptyRow). nat (target - 1 - int (length output)))")
     auto

declare padLoop.simps [simp del]

definition helpText :: "OverlayEnv \<Rightarrow> jsstring" where
  "helpText env =
     theme_fg env (js ''dim'')
       (js ''n/p files  d dismiss  Tab list  Ctrl+D/U scroll  y yank  V visual  Esc close'')"

text \<open>
  \<open>render(width)\<close>: the rows and the view controller afterwards, or the exception.  On
  every path that throws, the view controller has not been changed.
\<close>

definition overlay_render :: "OverlayEnv \<Rightarrow> OverlayState \<Rightarrow> int
    \<Rightarrow> js_error + (jsstring list \<times> InlineDiffView option)" where
  "overlay_render env st width =
     (let T = targetHeight env;
          m = modal st;
          built =
            (if fileList m = [] then Inr (noFilesContent env, viewController st)
             else if filePickerOpen m then Inr (pickerContent env m, viewController st)
             else diffContent env width st)
      in case built of
           Inl e \<Rightarrow> Inl e
         | Inr (contentLines, vc') \<Rightarrow>
            (let output = topBorder env width # map (padLine env width) contentLines
             in case (if int (length output) < T - 1
                      then (case emptyLine env width of
                              Inl e \<Rightarrow> Inl e
                            | Inr emptyRow \<Rightarrow> Inr (padLoop output T emptyRow))
                      else Inr output) of
                  Inl e \<Rightarrow> Inl e
                | Inr padded \<Rightarrow>
                   (let helped =
                          (if fileList m \<noteq> [] \<and> \<not> filePickerOpen m
                           then padded[length padded - 1 := padLine env width (helpText env)]
                           else padded)
                    in case bottomBorder env width of
                         Inl e \<Rightarrow> Inl e
                       | Inr bottom \<Rightarrow> Inr (helped @ [bottom], vc'))))"

text \<open>
  The rows \<open>render\<close> puts around a content when nothing throws: top border, padded
  content, empty rows up to \<open>targetHeight - 1\<close>, the line of key hints over the last of them (in
  the diff view), bottom border.
\<close>

definition assembled :: "OverlayEnv \<Rightarrow> int \<Rightarrow> bool \<Rightarrow> jsstring list \<Rightarrow> jsstring list" where
  "assembled env width showHelp c =
     (let output = topBorder env width # map (padLine env width) c;
          padded = padLoop output (targetHeight env)
                     (border env @ concat (replicate (nat (width - 2)) (js '' '')) @ border env);
          helped = (if showHelp then padded[length padded - 1 := padLine env width (helpText env)]
                    else padded)
      in helped @ [theme_fg env (js ''border'')
                     ([0x2570] @ concat (replicate (nat (width - 2)) [0x2500]) @ [0x256F])])"

text \<open>
  A host like the one of the repository's tests (the theme returns the text unchanged, the
  truncation cuts or pads to the width; the floating-point percentage stays a parameter),
  and a ledger with \<open>n\<close> changed files.
\<close>

definition testEnv :: "int option \<Rightarrow> (int \<Rightarrow> int \<Rightarrow> int) \<Rightarrow> OverlayEnv" where
  "testEnv h percent =
     \<lparr>tui_height = h, theme_fg = (\<lambda>role text. text), theme_bold = (\<lambda>text. text),
      utils_truncateToWidth =
        (\<lambda>text w. if int (length text) \<le> w
                   then text @ repeat_nonneg (js '' '') (w - int (length text))
                   else slice text 0 w),
      opt_title = None,
      roundPercent = percent\<rparr>"

definition manyChanged :: "nat \<Rightarrow> DiffState" where
  "manyChanged n =
     map (\<lambda>i. (js ''file'' @ toString (int i),
               \<lparr>originalContent = js ''a'', currentContent = js ''b''\<rparr>)) [0 ..< n]"

section \<open>Rows measured with the repository's escape pattern\<close>

text \<open>
  The repository recognises an escape sequence by the pattern \<open>/\x1b\[[0-9;]*m/\<close>
  (\<open>stripAnsi\<close> above, and the width tests): ESC, an opening bracket, digits and semicolons,
  \<open>m\<close>.  \<open>sgrOnly s\<close> says that every ESC character of \<open>s\<close> starts such a sequence; it
  reads the string with three states.  \<open>sgrRows\<close> says so of every styled row of a view.
\<close>

datatype sgr_state = Text | AfterEsc | InParams

fun sgrScan :: "sgr_state \<Rightarrow> jsstring \<Rightarrow> bool" where
  "sgrScan st [] = (st = Text)"
| "sgrScan Text (c # cs) = (if c = ESC then sgrScan AfterEsc cs else sgrScan Text cs)"
| "sgrScan AfterEsc (c # cs) = (c = 0x5B \<and> sgrScan InParams cs)"
| "sgrScan InParams (c # cs) =
     (if c = CH_m then sgrScan Text cs else isParamChar c \<and> sgrScan InParams cs)"

definition sgrOnly :: "jsstring \<Rightarrow> bool" where
  "sgrOnly s = sgrScan Text s"

definition sgrRows :: "InlineDiffView \<Rightarrow> bool" where
  "sgrRows v = list_all (\<lambda>line. sgrOnly (rcontent line)) (renderedLines v)"

text \<open>
  The text \<open>renderHunk\<close> puts after the marker: the record's text, or for a context line
  what the highlighter makes of it.
\<close>

definition shownText :: "HighlightFn option \<Rightarrow> jsstring \<Rightarrow> DiffLine \<Rightarrow> jsstring" where
  "shownText hl fp hunk =
     (case type hunk of
        Context \<Rightarrow> (case hl of Some f \<Rightarrow> f (content hunk) fp | None \<Rightarrow> content hunk)
      | _ \<Rightarrow> content hunk)"

text \<open>
  Two values of \<open>render\<close>, named: \<open>window\<close> is \<open>visibleLines\<close>, the slice of the rows at
  the scroll offset of the view, and \<open>highlighted\<close> is the variable \<open>content\<close> that the
  callback of \<open>visibleLines.map\<close> hands to \<open>truncateToWidth\<close>.
\<close>

definition highlighted :: "InlineDiffView \<Rightarrow> int \<Rightarrow> RenderedLine \<Rightarrow> jsstring" where
  "highlighted v lineIndex line =
     (let inVisualRange =
            (if visualMode v
             then (case getVisualRange v of (mn, mx) \<Rightarrow> lineIndex \<ge> mn \<and> lineIndex \<le> mx)
             else False)
      in if inVisualRange \<or> lineIndex = cursorLine v
         then BG_ON @ replaceFinalReset (rcontent line)
         else rcontent line)"

definition window :: "InlineDiffView \<Rightarrow> int \<Rightarrow> RenderedLine list" where
  "window v visibleHeight =
     slice (renderedLines v) (scrollOffset v)
       (min (scrollOffset v + visibleHeight) (int (length (renderedLines v))))"

text \<open>
  A new file whose only line holds an erase-line sequence \<open>ESC[K\<close> and, later, an \<open>m\<close>.
\<close>

definition escapeDiff :: FileDiff where
  "escapeDiff =
     \<lparr>filePath = js ''log.txt'', isNewFile = True,
      hunks = [\<lparr>type = Added, content = ESC # js ''[Khello worldm tail'',
                oldLineNumber = None, newLineNumber = Some 1\<rparr>],
      additions = 1, deletions = 0\<rparr>"

section \<open>Properties of the diff engine\<close>

text \<open>
  C7.  Whatever the external diff library returns, \<open>computeDiff\<close> on two empty contents
  gives no line records, zero additions, zero deletions and \<open>isNewFile = false\<close>; and on
  every input \<open>isNewFile\<close> is true exactly when the baseline is the empty string and the
  current content is not.
\<close>

theorem computeDiff_empty_and_isNewFile:
  "hunks (computeDiff sp path [] []) = []
   \<and> additions (computeDiff sp path [] []) = 0
   \<and> deletions (computeDiff sp path [] []) = 0
   \<and> isNewFile (computeDiff sp path [] []) = False
   \<and> isNewFile (computeDiff sp path original current) = (original = [] \<and> current \<noteq> [])"
  by (simp add: computeDiff_def Let_def)

section \<open>Properties of the row sequence\<close>

lemma lastOpt_snoc:
  "lastOpt (List.map_filter f (xs @ [x])) =
     (case f x of Some c \<Rightarrow> Some c | None \<Rightarrow> lastOpt (List.map_filter f xs))"
  by (simp add: lastOpt_def List.map_filter_def split: option.splits)

text \<open>
  The loop, started after the records \<open>done\<close> with \<open>previousLineNumber\<close> their latest
  anchor, appends exactly the expected cells for the remaining records.
\<close>

lemma buildLoop_spec:
  "buildLoop hl path w rest (int (length done))
     (lastOpt (List.map_filter currentLineNumber done)) rl idx
   = (rl @ expectedRows hl path w (done @ rest) [length done ..< length done + length rest],
      idx @ expectedIndex (done @ rest) [length done ..< length done + length rest])"
proof (induction rest arbitrary: "done" rl idx)
  case Nil
  show ?case by (simp add: expectedRows_def expectedIndex_def)
next
  case (Cons h r)
  let ?prev = "lastOpt (List.map_filter currentLineNumber done)"
  have sep: "separatorBefore (done @ h # r) (length done) =
      (case ?prev of None \<Rightarrow> False
       | Some p \<Rightarrow> (case currentLineNumber h of None \<Rightarrow> False | Some c \<Rightarrow> c > p + 1))"
    by (simp add: separatorBefore_def anchorsBefore_def split: option.splits)
  have upt: "[length done ..< length done + length (h # r)] =
      length done # [length (done @ [h]) ..< length (done @ [h]) + length r]"
  proof -
    have "[length done ..< length done + length (h # r)] =
        length done # [Suc (length done) ..< length done + length (h # r)]"
      by (rule upt_conv_Cons) simp
    then show ?thesis by simp
  qed
  have IH: "buildLoop hl path w r (int (length (done @ [h])))
       (lastOpt (List.map_filter currentLineNumber (done @ [h]))) rl' idx' =
     (rl' @ expectedRows hl path w ((done @ [h]) @ r)
              [length (done @ [h]) ..< length (done @ [h]) + length r],
      idx' @ expectedIndex ((done @ [h]) @ r)
              [length (done @ [h]) ..< length (done @ [h]) + length r])"
    for rl' idx'
    by (rule Cons.IH)
  have i1: "int (length done) + 1 = int (length (done @ [h]))" by simp
  show ?case
    unfolding buildLoop.simps Let_def i1 lastOpt_snoc[symmetric] IH upt
    by (simp add: expectedRows_def expectedIndex_def sep)
qed

lemma buildLoop_start:
  "buildLoop hl path w hs 0 None [] [] =
     (expectedRows hl path w hs [0 ..< length hs], expectedIndex hs [0 ..< length hs])"
  using buildLoop_spec [of hl path w hs "[]" "[]" "[]"]
  by (simp add: lastOpt_def List.map_filter_def)

lemma buildRenderedLines_spec:
  "renderedLines (buildRenderedLines v) =
     expectedRows (highlightFn v) (filePath (diff v))
       (length (toString (getMaxLineNumber (diff v)))) (hunks (diff v))
       [0 ..< length (hunks (diff v))]
   \<and> lineToHunkIndex (buildRenderedLines v) =
       expectedIndex (hunks (diff v)) [0 ..< length (hunks (diff v))]"
  by (simp add: buildRenderedLines_def Let_def buildLoop_start expectedRows_def
      expectedIndex_def)

lemma buildRenderedLines_other:
  "diff (buildRenderedLines v) = diff v
   \<and> highlightFn (buildRenderedLines v) = highlightFn v
   \<and> scrollOffset (buildRenderedLines v) = scrollOffset v
   \<and> cursorLine (buildRenderedLines v) = cursorLine v
   \<and> visualMode (buildRenderedLines v) = visualMode v
   \<and> visualAnchor (buildRenderedLines v) = visualAnchor v"
  by (simp add: buildRenderedLines_def Let_def split: prod.splits)

text \<open>
  C1, as the code has it.  When a diff is loaded by the constructor or by \<open>setDiff\<close>, the
  rows are the records in order, and a separator row is put before a record exactly when
  some earlier record has a defined anchor, the record has one too, and its anchor is
  greater than the latest earlier anchor plus one.  Four context lines at new line numbers
  1, 2, 10, 11 give five rows, the separator at index 2, whatever their texts and old line
  numbers are.
\<close>

theorem buildRenderedLines_separators:
  "lineToHunkIndex (new_InlineDiffView d hl) = expectedIndex (hunks d) [0 ..< length (hunks d)]
   \<and> renderedLines (new_InlineDiffView d hl) =
       expectedRows hl (filePath d) (length (toString (getMaxLineNumber d))) (hunks d)
         [0 ..< length (hunks d)]
   \<and> lineToHunkIndex (setDiff v d) = expectedIndex (hunks d) [0 ..< length (hunks d)]
   \<and> renderedLines (setDiff v d) =
       expectedRows (highlightFn v) (filePath d) (length (toString (getMaxLineNumber d)))
         (hunks d) [0 ..< length (hunks d)]
   \<and> lineToHunkIndex (new_InlineDiffView
        \<lparr>filePath = p, isNewFile = b,
         hunks = [contextLine t1 o1 1, contextLine t2 o2 2,
                  contextLine t3 o3 10, contextLine t4 o4 11],
         additions = a, deletions = r\<rparr> hl) = [0, 1, - 1, 2, 3]
   \<and> length (renderedLines (new_InlineDiffView
        \<lparr>filePath = p, isNewFile = b,
         hunks = [contextLine t1 o1 1, contextLine t2 o2 2,
                  contextLine t3 o3 10, contextLine t4 o4 11],
         additions = a, deletions = r\<rparr> hl)) = 5"
proof -
  let ?ex = "\<lparr>filePath = p, isNewFile = b,
         hunks = [contextLine t1 o1 1, contextLine t2 o2 2,
                  contextLine t3 o3 10, contextLine t4 o4 11],
         additions = a, deletions = r\<rparr>"
  have new: "lineToHunkIndex (new_InlineDiffView d' hl) =
        expectedIndex (hunks d') [0 ..< length (hunks d')]
      \<and> renderedLines (new_InlineDiffView d' hl) =
        expectedRows hl (filePath d') (length (toString (getMaxLineNumber d'))) (hunks d')
          [0 ..< length (hunks d')]" for d'
    unfolding new_InlineDiffView_def
    using buildRenderedLines_spec
      [of "\<lparr>diff = d', highlightFn = hl, renderedLines = [], scrollOffset = 0,
            cursorLine = 0, lineToHunkIndex = [], visualMode = False, visualAnchor = 0\<rparr>"]
    by simp
  have set: "lineToHunkIndex (setDiff v d) = expectedIndex (hunks d) [0 ..< length (hunks d)]
      \<and> renderedLines (setDiff v d) =
        expectedRows (highlightFn v) (filePath d) (length (toString (getMaxLineNumber d)))
          (hunks d) [0 ..< length (hunks d)]"
    unfolding setDiff_def
    using buildRenderedLines_spec
      [of "v\<lparr>diff := d, scrollOffset := 0, cursorLine := 0, visualMode := False\<rparr>"]
    by simp
  have upt4: "[0 ..< 4] = [0, 1, 2, 3]"
    by (simp add: upt_rec)
  have anchors: "currentLineNumber (contextLine t old new) = Some new" for t old new
    by (simp add: currentLineNumber_def contextLine_def)
  have seps: "expectedIndex (hunks ?ex) [0 ..< length (hunks ?ex)] = [0, 1, - 1, 2, 3]"
    by (simp add: upt4 expectedIndex_def separatorBefore_def anchorsBefore_def lastOpt_def
        List.map_filter_def anchors take_Cons')
  have rows: "length (expectedRows hl p w (hunks ?ex) [0 ..< length (hunks ?ex)]) = 5" for w
    by (simp add: upt4 expectedRows_def separatorBefore_def anchorsBefore_def lastOpt_def
        List.map_filter_def anchors take_Cons')
  have ex1: "lineToHunkIndex (new_InlineDiffView ?ex hl) = [0, 1, - 1, 2, 3]"
    using new [of ?ex] seps by simp
  have ex2: "length (renderedLines (new_InlineDiffView ?ex hl)) = 5"
    using new [of ?ex] rows by simp
  show ?thesis
    using new [of d] set ex1 ex2 by blast
qed

text \<open>
  The rule as worded in the specification asks for a separator between the removed line
  with old number 2 and the added line with new number 2 that replaces it (2 is not
  2 + 1); the view puts none: the five records give five rows.
\<close>

theorem spec_separator_counterexample:
  "spec_separator (hunks modifiedDiff ! 1) (hunks modifiedDiff ! 2)
   \<and> lineToHunkIndex (new_InlineDiffView modifiedDiff None) = [0, 1, 2, 3, 4]
   \<and> \<not> isSeparatorLine (new_InlineDiffView modifiedDiff None) 2"
  by (simp add: spec_separator_def modifiedDiff_def contextLine_def currentLineNumber_def
      new_InlineDiffView_def buildRenderedLines_def isSeparatorLine_def at_index_def Let_def)

section \<open>Properties of the truncation\<close>

lemma truncLoop_acc:
  "truncLoop w line vis (r1 @ r2) e s = r1 @ truncLoop w line vis r2 e s"
  by (induction line arbitrary: vis r2 e s) simp_all

lemma truncLoop_acc0:
  "truncLoop w line vis r e s = r @ truncLoop w line vis [] e s"
  using truncLoop_acc [of w line vis r "[]" e s] by simp

lemma visibleChars_escape_body:
  "ESC \<notin> set t \<Longrightarrow> CH_m \<notin> set t \<Longrightarrow>
   visibleChars True (t @ CH_m # rest) = visibleChars False rest"
  by (induction t) (auto simp: ESC_def CH_m_def)

lemma visibleChars_ESC_append:
  "visibleChars b (xs @ ESC # ys) = visibleChars b xs @ visibleChars True ys"
  by (induction xs arbitrary: b) auto

text \<open>The characters the loop counts and emits are the next \<open>width - visibleLength\<close> ones.\<close>

lemma truncLoop_chars:
  "openEscape e s \<Longrightarrow>
   visibleChars False (truncLoop w line vis [] e s) = take (nat (w - vis)) (visibleChars e line)"
proof (induction line arbitrary: vis e s)
  case Nil
  show ?case by simp
next
  case (Cons c cs)
  show ?case
  proof (cases "c = ESC")
    case True
    have "openEscape True [c]" by (simp add: openEscape_def True)
    from Cons.IH [OF this] show ?thesis using True by simp
  next
    case notEsc: False
    show ?thesis
    proof (cases e)
      case True
      then obtain t where t: "s = ESC # t" "ESC \<notin> set t" "CH_m \<notin> set t"
        using Cons.prems by (auto simp: openEscape_def)
      show ?thesis
      proof (cases "c = CH_m")
        case isM: True
        have o: "openEscape False []" by (simp add: openEscape_def)
        have "truncLoop w (c # cs) vis [] e s = (s @ [c]) @ truncLoop w cs vis [] False []"
          using notEsc True isM truncLoop_acc0 [of w cs vis "s @ [c]" False "[]"] by simp
        moreover have "visibleChars False ((s @ [c]) @ truncLoop w cs vis [] False []) =
            visibleChars False (truncLoop w cs vis [] False [])"
          using t isM visibleChars_escape_body [of t "truncLoop w cs vis [] False []"] by simp
        ultimately show ?thesis using Cons.IH [OF o, of vis] notEsc True isM by simp
      next
        case notM: False
        have "openEscape True (s @ [c])"
          using t notEsc notM by (simp add: openEscape_def)
        from Cons.IH [OF this, of vis] show ?thesis using notEsc True notM by simp
      qed
    next
      case False
      have o: "openEscape False s" by (simp add: openEscape_def)
      show ?thesis
      proof (cases "vis \<ge> w")
        case True
        then show ?thesis using notEsc False by simp
      next
        case lt: False
        have "truncLoop w (c # cs) vis [] e s = [c] @ truncLoop w cs (vis + 1) [] False s"
          using notEsc False lt truncLoop_acc0 [of w cs "vis + 1" "[c]" False s] by simp
        moreover have "nat (w - vis) = Suc (nat (w - (vis + 1)))" using lt by simp
        ultimately show ?thesis using Cons.IH [OF o, of "vis + 1"] notEsc False by simp
      qed
    qed
  qed
qed

lemma visibleChars_RESET: "visibleChars b (xs @ RESET) = visibleChars b xs"
proof -
  have "visibleChars True (js ''[0m'') = []"
    by (simp add: js_def ESC_def CH_m_def)
  then show ?thesis
    by (simp add: RESET_def visibleChars_ESC_append)
qed

lemma truncateToWidth_chars:
  "visibleChars False (truncateToWidth line w) = take (nat w) (visibleChars False line)"
  using truncLoop_chars [of False "[]" w line 0]
  by (simp add: truncateToWidth_def Let_def visibleChars_RESET openEscape_def)

lemma render_row_truncated:
  "r \<in> set (fst (render v w h)) \<Longrightarrow> \<exists>s. r = truncateToWidth s w"
  by (auto simp: render_def Let_def renderLine_def)

section \<open>The invariant of the view\<close>

lemma setDiff_resets:
  "cursorLine (setDiff v d) = 0 \<and> scrollOffset (setDiff v d) = 0
   \<and> visualMode (setDiff v d) = False"
  by (simp add: setDiff_def buildRenderedLines_other)

lemma view_inv_setDiff: "view_inv (setDiff v d)"
  using setDiff_resets [of v d] by (auto simp: view_inv_def)

lemma view_inv_new: "view_inv (new_InlineDiffView d hl)"
  by (auto simp: view_inv_def new_InlineDiffView_def buildRenderedLines_other)

lemma view_inv_setCursor: "view_inv v \<Longrightarrow> view_inv (setCursor v line)"
  by (auto simp: view_inv_def setCursor_def Let_def)

lemma view_inv_moveCursor: "view_inv v \<Longrightarrow> view_inv (moveCursor v delta)"
  by (auto simp: view_inv_def moveCursor_def setCursor_def Let_def)

lemma view_inv_scrollUp: "view_inv v \<Longrightarrow> view_inv (scrollUp v n)"
  by (auto simp: view_inv_def scrollUp_def moveCursor_def setCursor_def Let_def)

lemma view_inv_scrollDown:
  "view_inv v \<Longrightarrow> 0 \<le> scrollOffset v + n \<Longrightarrow> view_inv (scrollDown v n)"
  by (auto simp: view_inv_def scrollDown_def moveCursor_def setCursor_def Let_def)

lemma view_inv_scrollToTop: "view_inv v \<Longrightarrow> view_inv (scrollToTop v)"
  by (auto simp: view_inv_def scrollToTop_def)

lemma view_inv_scrollToBottom: "view_inv v \<Longrightarrow> view_inv (scrollToBottom v)"
  by (auto simp: view_inv_def scrollToBottom_def)

lemma view_inv_visual:
  "view_inv v \<Longrightarrow> view_inv (enterVisualMode v) \<and> view_inv (exitVisualMode v)"
  by (auto simp: view_inv_def enterVisualMode_def exitVisualMode_def)

text \<open>The only field \<open>render\<close> writes is the scroll offset.\<close>

lemma render_state:
  "snd (render v w h) = v\<lparr>scrollOffset :=
      min (if cursorLine v <
                (if cursorLine v \<ge> scrollOffset v + h then cursorLine v - h + 1
                 else scrollOffset v)
           then cursorLine v
           else (if cursorLine v \<ge> scrollOffset v + h then cursorLine v - h + 1
                 else scrollOffset v))
          (max 0 (int (length (renderedLines v)) - h))\<rparr>"
  by (simp add: render_def Let_def)

lemma view_inv_render: "view_inv v \<Longrightarrow> view_inv (snd (render v w h))"
  unfolding render_state by (auto simp: view_inv_def)

text \<open>The guard of the loop keeps every read inside the array, so nothing is thrown.\<close>

lemma collectRaw_Inr: "\<exists>ls. collectRaw rl is acc = Inr ls"
  by (induction "is" arbitrary: acc) (auto simp: at_index_def)

lemma getSelectedRawLines_Inr: "\<exists>ls. getSelectedRawLines v = Inr ls"
  by (simp add: getSelectedRawLines_def collectRaw_Inr split: prod.splits)

lemma apply_op_preserves:
  assumes "view_inv v" and "scroll_arg_ok v op"
  shows "\<exists>v'. apply_op v op = Inr v' \<and> view_inv v'"
proof (cases op)
  case (ScrollDown n)
  then show ?thesis using assms view_inv_scrollDown by simp
next
  case GetSelectedRawLines
  then show ?thesis using assms(1) getSelectedRawLines_Inr [of v] by auto
qed (use assms(1) view_inv_setDiff view_inv_moveCursor view_inv_setCursor view_inv_scrollUp
      view_inv_scrollToTop view_inv_scrollToBottom view_inv_visual view_inv_render in simp_all)

lemma gapDiff_view:
  "length (renderedLines (new_InlineDiffView gapDiff None)) = 5
   \<and> cursorLine (new_InlineDiffView gapDiff None) = 0
   \<and> scrollOffset (new_InlineDiffView gapDiff None) = 0"
proof -
  have "length (renderedLines (new_InlineDiffView gapDiff None)) = 5"
    by code_simp
  then show ?thesis
    by (simp add: new_InlineDiffView_def buildRenderedLines_other)
qed

lemma nonneg_scroll_ok: "view_inv v \<Longrightarrow> nonneg_scroll op \<Longrightarrow> scroll_arg_ok v op"
  by (cases op) (auto simp: view_inv_def)

lemma run_ops_preserves:
  "view_inv v \<Longrightarrow> list_all nonneg_scroll ops \<Longrightarrow> \<exists>v'. run_ops v ops = Inr v' \<and> view_inv v'"
proof (induction ops arbitrary: v)
  case Nil
  then show ?case by simp
next
  case (Cons op ops)
  then have "scroll_arg_ok v op" by (simp add: nonneg_scroll_ok)
  then obtain v1 where v1: "apply_op v op = Inr v1" "view_inv v1"
    using apply_op_preserves Cons.prems(1) by blast
  moreover have "list_all nonneg_scroll ops" using Cons.prems(2) by simp
  ultimately show ?case using Cons.IH [of v1] by simp
qed

text \<open>
  C2, as the code has it.  The constructor establishes the invariant (cursor inside the
  rows, or 0 when there are none; scroll offset \<open>\<ge> 0\<close>), and every public operation
  returns without an exception and preserves it, for every argument, except that
  \<open>scrollDown(n)\<close> needs \<open>scrollOffset + n \<ge> 0\<close> (so every \<open>n \<ge> 0\<close> is fine).  Hence every
  state reached from the constructor by calls whose scroll-down amounts are not negative
  satisfies the invariant.  \<open>setDiff\<close> resets cursor and scroll offset to 0 and visual
  mode to off, and the selection getter that reads rows never reads outside the array.
\<close>

theorem view_ops_preserve_invariant:
  assumes "view_inv v" and "scroll_arg_ok v op" and "list_all nonneg_scroll ops"
  shows "(\<exists>v'. apply_op v op = Inr v' \<and> view_inv v')
    \<and> view_inv (new_InlineDiffView d hl)
    \<and> (\<exists>v'. run_ops (new_InlineDiffView d hl) ops = Inr v' \<and> view_inv v')
    \<and> cursorLine (setDiff v d) = 0 \<and> scrollOffset (setDiff v d) = 0
    \<and> visualMode (setDiff v d) = False
    \<and> (\<exists>ls. getSelectedRawLines v = Inr ls)"
  using apply_op_preserves [OF assms(1,2)] view_inv_new setDiff_resets getSelectedRawLines_Inr
    run_ops_preserves [OF view_inv_new assms(3)]
  by blast

theorem view_ops_preserve_invariant_witness:
  "view_inv (new_InlineDiffView gapDiff None)
   \<and> scroll_arg_ok (new_InlineDiffView gapDiff None) (ScrollDown 10)
   \<and> list_all nonneg_scroll [ScrollDown 10, MoveCursor (- 7)]
   \<and> apply_op (new_InlineDiffView gapDiff None) (ScrollDown 10) =
       Inr (scrollDown (new_InlineDiffView gapDiff None) 10)
   \<and> view_inv (scrollDown (new_InlineDiffView gapDiff None) 10)
   \<and> cursorLine (scrollDown (new_InlineDiffView gapDiff None) 10) = 4
   \<and> scrollOffset (scrollDown (new_InlineDiffView gapDiff None) 10) = 5"
proof -
  let ?v = "new_InlineDiffView gapDiff None"
  have inv: "view_inv ?v"
    using gapDiff_view by (auto simp: view_inv_def)
  have ok: "scroll_arg_ok ?v (ScrollDown 10)"
    using gapDiff_view by simp
  have ops: "list_all nonneg_scroll [ScrollDown 10, MoveCursor (- 7)]"
    by simp
  have vals: "cursorLine (scrollDown ?v 10) = 4 \<and> scrollOffset (scrollDown ?v 10) = 5"
    using gapDiff_view by (simp add: scrollDown_def moveCursor_def setCursor_def Let_def)
  from view_ops_preserve_invariant [OF inv ok ops, of gapDiff None] inv ok ops vals
  show ?thesis by simp
qed

text \<open>
  The claim as stated fails for a negative argument of \<open>scrollDown\<close>: on a freshly built
  view \<open>scrollDown(-1)\<close> leaves the scroll offset at -1.
\<close>

theorem scrollDown_negative_counterexample:
  "view_inv (new_InlineDiffView gapDiff None)
   \<and> scrollOffset (scrollDown (new_InlineDiffView gapDiff None) (- 1)) = - 1
   \<and> \<not> view_inv (scrollDown (new_InlineDiffView gapDiff None) (- 1))"
proof -
  let ?v = "new_InlineDiffView gapDiff None"
  have start: "cursorLine ?v = 0 \<and> scrollOffset ?v = 0"
    by (simp add: new_InlineDiffView_def buildRenderedLines_other)
  have so: "scrollOffset (scrollDown ?v (- 1)) = - 1"
    using start by (simp add: scrollDown_def moveCursor_def setCursor_def Let_def)
  then have "\<not> view_inv (scrollDown ?v (- 1))"
    by (simp add: view_inv_def)
  with so view_inv_new [of gapDiff None] show ?thesis by simp
qed

section \<open>Scrolling and the visual range\<close>

lemma slice_length:
  "0 \<le> a \<Longrightarrow> a \<le> b \<Longrightarrow> b \<le> int (length xs) \<Longrightarrow> length (slice xs a b) = nat (b - a)"
  by (auto simp: slice_def Let_def)

lemma render_length:
  "length (fst (render v w h)) =
     length (slice (renderedLines v) (scrollOffset (snd (render v w h)))
        (min (scrollOffset (snd (render v w h)) + h) (int (length (renderedLines v)))))"
  by (simp add: render_def Let_def)

text \<open>
  C5, as the code has it.  In every state of the view and for every amount \<open>n\<close> (so for
  every \<open>n \<ge> 0\<close>), \<open>scrollUp(n)\<close> sets the offset to \<open>max(0, scrollOffset - n)\<close> and
  \<open>scrollDown(n)\<close> sets it to \<open>min(rows, scrollOffset + n)\<close>: going down, the offset is
  clamped at the number of rows.  Each call moves the cursor by the same signed amount,
  clamped into \<open>[0, rows - 1]\<close> (0 when there are no rows).  The offset after
  \<open>scrollUp\<close> is never negative, and neither is the one after \<open>scrollDown(n)\<close> when
  \<open>n \<ge> 0\<close> and the offset was not negative before.
\<close>

theorem scroll_moves_offset_and_cursor:
  "scrollOffset (scrollDown v n) = min (int (length (renderedLines v))) (scrollOffset v + n)
   \<and> scrollOffset (scrollUp v n) = max 0 (scrollOffset v - n)
   \<and> cursorLine (scrollDown v n) = clampCursor v (cursorLine v + n)
   \<and> cursorLine (scrollUp v n) = clampCursor v (cursorLine v - n)
   \<and> 0 \<le> clampCursor v line
   \<and> clampCursor v line \<le> max 0 (int (length (renderedLines v)) - 1)
   \<and> 0 \<le> scrollOffset (scrollUp v n)
   \<and> (0 \<le> scrollOffset v \<and> 0 \<le> n \<longrightarrow> 0 \<le> scrollOffset (scrollDown v n))"
  by (cases "renderedLines v = []")
     (auto simp: scrollDown_def scrollUp_def moveCursor_def setCursor_def Let_def
        clampCursor_def)

theorem scroll_moves_offset_and_cursor_witness:
  "(0::int) \<le> scrollOffset (new_InlineDiffView gapDiff None) \<and> (0::int) \<le> 3
   \<and> scrollOffset (scrollDown (new_InlineDiffView gapDiff None) 3) = 3
   \<and> cursorLine (scrollDown (new_InlineDiffView gapDiff None) 3) = 3
   \<and> scrollOffset (scrollUp (new_InlineDiffView gapDiff None) 3) = 0
   \<and> cursorLine (scrollUp (new_InlineDiffView gapDiff None) 3) = 0
   \<and> 0 \<le> scrollOffset (scrollDown (new_InlineDiffView gapDiff None) 3)"
proof -
  let ?v = "new_InlineDiffView gapDiff None"
  have ne: "renderedLines ?v \<noteq> []"
    using gapDiff_view by auto
  from scroll_moves_offset_and_cursor [of ?v 3 0] gapDiff_view ne show ?thesis
    by (simp add: clampCursor_def)
qed

text \<open>
  The claim as stated (offset adjusted by \<open>+n\<close>, clamped only to stay \<open>\<ge> 0\<close>) fails
  when the sum passes the number of rows: with five rows, \<open>scrollDown(10)\<close> from offset 0
  leaves the offset at 5, not 10.
\<close>

theorem scrollDown_offset_counterexample:
  "scrollOffset (new_InlineDiffView gapDiff None) = 0
   \<and> spec_scrollBy (scrollOffset (new_InlineDiffView gapDiff None)) 10 = 10
   \<and> scrollOffset (scrollDown (new_InlineDiffView gapDiff None) 10) = 5"
  using gapDiff_view
  by (simp add: spec_scrollBy_def scrollDown_def moveCursor_def setCursor_def Let_def)

text \<open>
  C6.  \<open>getVisualRange\<close> is the pair (minimum, maximum) of anchor and cursor, so it does
  not change when the two are exchanged and its first component is never above the second;
  after \<open>enterVisualMode\<close> and a cursor move in either direction it is the pair of the
  smaller and the larger of the old and the new cursor row.
\<close>

theorem getVisualRange_min_max:
  "getVisualRange v =
     (min (visualAnchor v) (cursorLine v), max (visualAnchor v) (cursorLine v))
   \<and> getVisualRange (v\<lparr>visualAnchor := cursorLine v, cursorLine := visualAnchor v\<rparr>)
       = getVisualRange v
   \<and> fst (getVisualRange v) \<le> snd (getVisualRange v)
   \<and> getVisualRange (moveCursor (enterVisualMode v) delta) =
       (min (cursorLine v) (cursorLine (moveCursor v delta)),
        max (cursorLine v) (cursorLine (moveCursor v delta)))
   \<and> visualMode (moveCursor (enterVisualMode v) delta)"
  by (auto simp: getVisualRange_def enterVisualMode_def moveCursor_def setCursor_def Let_def)

section \<open>Rows end with the reset\<close>

lemma startsWith_append: "startsWith (p @ s) p"
  by (induction p) simp_all

lemma endsWith_append: "endsWith (xs @ p) p"
  by (simp add: endsWith_def startsWith_append)

lemma startsWith_includes: "startsWith s p \<Longrightarrow> includes_str s p"
  by (cases s) simp_all

lemma truncLoop_in_escape:
  "ESC \<notin> set p \<Longrightarrow> CH_m \<notin> set p \<Longrightarrow>
   truncLoop w (p @ CH_m # rest) vis r True s = truncLoop w rest vis (r @ s @ p @ [CH_m]) False []"
  by (induction p arbitrary: s) (auto simp: ESC_def CH_m_def)

lemma truncLoop_escape_first:
  "ESC \<notin> set p \<Longrightarrow> CH_m \<notin> set p \<Longrightarrow>
   truncLoop w (ESC # p @ CH_m # rest) 0 [] False [] =
     (ESC # p @ [CH_m]) @ truncLoop w rest 0 [] False []"
  using truncLoop_in_escape [of p w rest 0 "[]" "[ESC]"]
    truncLoop_acc0 [of w rest 0 "ESC # p @ [CH_m]" False "[]"]
  by simp

lemma truncLoop_unterminated:
  "CH_m \<notin> set tail \<Longrightarrow> truncLoop w tail vis r True s = r"
  by (induction tail arbitrary: s) auto

lemma truncLoop_drops_unterminated:
  "CH_m \<notin> set tail \<Longrightarrow>
   truncLoop w (pre @ ESC # tail) vis r e s = truncLoop w pre vis r e s"
  by (induction pre arbitrary: vis r e s) (auto simp: truncLoop_unterminated)

lemma truncateToWidth_drops_unterminated:
  "CH_m \<notin> set tail \<Longrightarrow> truncateToWidth (pre @ ESC # tail) w = truncateToWidth pre w"
  by (simp add: truncateToWidth_def truncLoop_drops_unterminated)

lemma truncateToWidth_ends_reset:
  assumes "includes_str (truncLoop w line 0 [] False []) CSI"
  shows "endsWith (truncateToWidth line w) RESET"
  using assms by (auto simp: truncateToWidth_def Let_def endsWith_append)

lemma truncateToWidth_csi_first:
  assumes "ESC \<notin> set p" "CH_m \<notin> set p"
  shows "endsWith (truncateToWidth (ESC # 0x5B # p @ CH_m # rest) w) RESET"
proof -
  have "ESC \<notin> set (0x5B # p)" "CH_m \<notin> set (0x5B # p)"
    using assms by (auto simp: ESC_def CH_m_def)
  from truncLoop_escape_first [OF this, of w rest]
  have "startsWith (truncLoop w (ESC # 0x5B # p @ CH_m # rest) 0 [] False []) CSI"
    by (simp add: CSI_def js_def)
  then show ?thesis
    by (intro truncateToWidth_ends_reset startsWith_includes)
qed

lemma colored_ends_reset:
  assumes "colored s"
  shows "endsWith (truncateToWidth s w) RESET"
    and "endsWith (truncateToWidth (BG_ON @ t) w) RESET"
proof -
  obtain c body where c: "c \<in> {GREEN, RED, DIM}" "s = c @ body @ RESET"
    using assms by (auto simp: colored_def)
  have g: "GREEN @ x = ESC # 0x5B # [0x33, 0x32] @ CH_m # x" for x
    by (simp add: GREEN_def js_def CH_m_def)
  have r: "RED @ x = ESC # 0x5B # [0x33, 0x31] @ CH_m # x" for x
    by (simp add: RED_def js_def CH_m_def)
  have d: "DIM @ x = ESC # 0x5B # [0x32] @ CH_m # x" for x
    by (simp add: DIM_def js_def CH_m_def)
  have b: "BG_ON @ x = ESC # 0x5B # [0x34, 0x38, 0x3B, 0x35, 0x3B, 0x32, 0x33, 0x36] @ CH_m # x" for x
    by (simp add: BG_ON_def js_def CH_m_def)
  show "endsWith (truncateToWidth s w) RESET"
    using c
    by (auto simp only: c g r d insert_iff empty_iff intro!: truncateToWidth_csi_first)
       (simp_all add: ESC_def CH_m_def)
  show "endsWith (truncateToWidth (BG_ON @ t) w) RESET"
    unfolding b by (rule truncateToWidth_csi_first) (simp_all add: ESC_def CH_m_def)
qed

lemma expectedRows_colored:
  "line \<in> set (expectedRows hl p w hs is) \<Longrightarrow> colored (rcontent line)"
proof -
  have sep: "colored (rcontent createSeparatorLine)"
    unfolding colored_def createSeparatorLine_def by (intro exI [of _ DIM] exI [of _ DOTS]) simp
  have hunk: "colored (rcontent (renderHunk hl p h w))" for h
    unfolding colored_def renderHunk_def Let_def
    by (cases "type h") (auto simp: intro: exI [of _ GREEN] exI [of _ RED] exI [of _ DIM])
  assume "line \<in> set (expectedRows hl p w hs is)"
  then show ?thesis
    using sep hunk by (auto simp: expectedRows_def split: if_splits)
qed

lemma styledRows_build: "styledRows (buildRenderedLines v)"
  using buildRenderedLines_spec [of v] expectedRows_colored
  by (auto simp: styledRows_def)

lemma styledRows_apply_op:
  "styledRows v \<Longrightarrow> apply_op v op = Inr v' \<Longrightarrow> styledRows v'"
proof (cases op)
  case (SetDiff d)
  assume "apply_op v op = Inr v'"
  then show ?thesis using SetDiff by (auto simp: setDiff_def styledRows_build)
next
  case GetSelectedRawLines
  assume "styledRows v" "apply_op v op = Inr v'"
  then show ?thesis using GetSelectedRawLines by (auto split: sum.splits)
qed (auto simp: styledRows_def moveCursor_def setCursor_def scrollUp_def scrollDown_def
      scrollToTop_def scrollToBottom_def enterVisualMode_def exitVisualMode_def render_state Let_def)

lemma styledRows_run_ops:
  "styledRows v \<Longrightarrow> run_ops v ops = Inr v' \<Longrightarrow> styledRows v'"
proof (induction ops arbitrary: v)
  case Nil
  then show ?case by simp
next
  case (Cons op ops)
  then show ?case
    by (auto split: sum.splits dest: styledRows_apply_op)
qed

lemma styledRows_new: "styledRows (new_InlineDiffView d hl)"
  by (simp add: new_InlineDiffView_def styledRows_build)

lemma slice_subset: "set (slice xs a b) \<subseteq> set xs"
  unfolding slice_def Let_def
  by (meson set_take_subset set_drop_subset subset_trans)

lemma render_row_source:
  assumes "r \<in> set (fst (render v w h))"
  shows "\<exists>line \<in> set (renderedLines v).
           r = truncateToWidth (rcontent line) w
           \<or> r = truncateToWidth (BG_ON @ replaceFinalReset (rcontent line)) w"
proof -
  from assms obtain line i where
    "line \<in> set (slice (renderedLines v) (scrollOffset (snd (render v w h)))
        (min (scrollOffset (snd (render v w h)) + h) (int (length (renderedLines v)))))"
    "r = renderLine (snd (render v w h)) w i line"
    by (auto simp: render_def Let_def dest!: set_zip_leftD)
  then show ?thesis
    using slice_subset by (fastforce simp: renderLine_def Let_def)
qed

lemma completeEscapes_ESC_append:
  "completeEscapes e (xs @ ESC # ys) = (completeEscapes e xs \<and> completeEscapes True ys)"
  by (induction xs arbitrary: e) auto

lemma completeEscapes_body:
  "ESC \<notin> set t \<Longrightarrow> CH_m \<notin> set t \<Longrightarrow>
   completeEscapes True (t @ CH_m # rest) = completeEscapes False rest"
  by (induction t) (auto simp: ESC_def CH_m_def)

lemma truncLoop_complete:
  "openEscape e s \<Longrightarrow> completeEscapes False (truncLoop w line vis [] e s)"
proof (induction line arbitrary: vis e s)
  case Nil
  show ?case by simp
next
  case (Cons c cs)
  show ?case
  proof (cases "c = ESC")
    case True
    have "openEscape True [c]" by (simp add: openEscape_def True)
    from Cons.IH [OF this] show ?thesis using True by simp
  next
    case notEsc: False
    show ?thesis
    proof (cases e)
      case True
      then obtain t where t: "s = ESC # t" "ESC \<notin> set t" "CH_m \<notin> set t"
        using Cons.prems by (auto simp: openEscape_def)
      show ?thesis
      proof (cases "c = CH_m")
        case isM: True
        have o: "openEscape False []" by (simp add: openEscape_def)
        have "truncLoop w (c # cs) vis [] e s = (s @ [c]) @ truncLoop w cs vis [] False []"
          using notEsc True isM truncLoop_acc0 [of w cs vis "s @ [c]" False "[]"] by simp
        moreover have "completeEscapes False ((s @ [c]) @ truncLoop w cs vis [] False []) =
            completeEscapes False (truncLoop w cs vis [] False [])"
          using t isM completeEscapes_body [of t "truncLoop w cs vis [] False []"] by simp
        ultimately show ?thesis using Cons.IH [OF o, of vis] by simp
      next
        case notM: False
        have "openEscape True (s @ [c])"
          using t notEsc notM by (simp add: openEscape_def)
        from Cons.IH [OF this, of vis] show ?thesis using notEsc True notM by simp
      qed
    next
      case False
      have o: "openEscape False s" by (simp add: openEscape_def)
      show ?thesis
      proof (cases "vis \<ge> w")
        case True
        then show ?thesis using notEsc False by simp
      next
        case lt: False
        have "truncLoop w (c # cs) vis [] e s = [c] @ truncLoop w cs (vis + 1) [] False s"
          using notEsc False lt truncLoop_acc0 [of w cs "vis + 1" "[c]" False s] by simp
        then show ?thesis using Cons.IH [OF o, of "vis + 1"] notEsc by simp
      qed
    qed
  qed
qed

lemma truncateToWidth_complete: "completeEscapes False (truncateToWidth line w)"
proof -
  have r: "completeEscapes True (js ''[0m'')"
    by (simp add: js_def ESC_def CH_m_def)
  have "completeEscapes False (truncLoop w line 0 [] False [])"
    by (rule truncLoop_complete) (simp add: openEscape_def)
  then show ?thesis
    using r by (simp add: truncateToWidth_def Let_def RESET_def completeEscapes_ESC_append)
qed

text \<open>
  C10.  In a view built by the constructor and driven by any sequence of public
  operations, every row returned by \<open>render\<close> ends with the reset sequence \<open>ESC[0m\<close>
  (each row starts with a colour or background code, so each contains an escape sequence),
  and holds complete escape sequences only.  An escape sequence that is not terminated by
  an \<open>m\<close> before the line ends is dropped entirely: the truncation of the line is the
  truncation of the text before it.
\<close>

theorem rendered_rows_end_with_reset:
  assumes "run_ops (new_InlineDiffView d hl) ops = Inr v"
    and "r \<in> set (fst (render v width height))"
  shows "endsWith r RESET \<and> completeEscapes False r
    \<and> (CH_m \<notin> set tail \<longrightarrow>
          truncateToWidth (pre @ ESC # tail) width = truncateToWidth pre width)"
proof -
  have "styledRows v"
    using styledRows_run_ops [OF styledRows_new assms(1)] .
  moreover obtain line where "line \<in> set (renderedLines v)"
    "r = truncateToWidth (rcontent line) width
     \<or> r = truncateToWidth (BG_ON @ replaceFinalReset (rcontent line)) width"
    using render_row_source [OF assms(2)] by blast
  ultimately have "endsWith r RESET"
    using colored_ends_reset by (auto simp: styledRows_def)
  moreover have "completeEscapes False r"
    using render_row_truncated [OF assms(2)] truncateToWidth_complete by auto
  ultimately show ?thesis
    using truncateToWidth_drops_unterminated by blast
qed

theorem rendered_rows_end_with_reset_witness:
  "run_ops (new_InlineDiffView gapDiff None) [MoveCursor 1] =
     Inr (moveCursor (new_InlineDiffView gapDiff None) 1)
   \<and> hd (fst (render (moveCursor (new_InlineDiffView gapDiff None) 1) 3 10))
       \<in> set (fst (render (moveCursor (new_InlineDiffView gapDiff None) 1) 3 10))
   \<and> hd (fst (render (moveCursor (new_InlineDiffView gapDiff None) 1) 3 10)) =
       DIM @ js '' 1 '' @ RESET
   \<and> endsWith (hd (fst (render (moveCursor (new_InlineDiffView gapDiff None) 1) 3 10))) RESET
   \<and> CH_m \<notin> set (js ''[3'')
   \<and> truncateToWidth (js ''ab'' @ ESC # js ''[3'') 3 = truncateToWidth (js ''ab'') 3"
proof -
  let ?v = "moveCursor (new_InlineDiffView gapDiff None) 1"
  have run: "run_ops (new_InlineDiffView gapDiff None) [MoveCursor 1] = Inr ?v"
    by simp
  have row: "hd (fst (render ?v 3 10)) = DIM @ js '' 1 '' @ RESET"
    by code_simp
  have mem: "hd (fst (render ?v 3 10)) \<in> set (fst (render ?v 3 10))"
    by code_simp
  have tail: "CH_m \<notin> set (js ''[3'')"
    by (simp add: js_def CH_m_def)
  from rendered_rows_end_with_reset [OF run mem, of "js ''[3''" "js ''ab''"] run row mem tail
  show ?thesis by simp
qed

section \<open>The rows \<open>render\<close> returns\<close>

text \<open>
  Row \<open>i\<close> of the result is the truncation of the styled (and, for the cursor row and
  the visual range, highlighted) row \<open>i\<close> of the window at the corrected scroll offset.
\<close>

lemma renderLine_highlighted:
  "renderLine v w i line = truncateToWidth (highlighted v i line) w"
  by (simp add: renderLine_def highlighted_def Let_def)

lemma render_rows_eq:
  "fst (render v w h) =
     map (\<lambda>(line, index). renderLine (snd (render v w h)) w
                              (scrollOffset (snd (render v w h)) + int index) line)
       (zip (window (snd (render v w h)) h) [0 ..< length (window (snd (render v w h)) h)])"
  by (simp add: render_def Let_def window_def)

lemma map_zip_index_nth:
  "i < length xs \<Longrightarrow> map (\<lambda>(x, k). f x k) (zip xs [0 ..< length xs]) ! i = f (xs ! i) i"
  by simp

lemma render_rows_window:
  "length (fst (render v w h)) = length (window (snd (render v w h)) h)"
  "i < length (fst (render v w h)) \<Longrightarrow>
     fst (render v w h) ! i =
       truncateToWidth (highlighted (snd (render v w h))
          (scrollOffset (snd (render v w h)) + int i)
          (window (snd (render v w h)) h ! i)) w"
proof -
  show len: "length (fst (render v w h)) = length (window (snd (render v w h)) h)"
    by (subst render_rows_eq) simp
  assume "i < length (fst (render v w h))"
  then have i: "i < length (window (snd (render v w h)) h)" using len by simp
  show "fst (render v w h) ! i =
       truncateToWidth (highlighted (snd (render v w h))
          (scrollOffset (snd (render v w h)) + int i)
          (window (snd (render v w h)) h ! i)) w"
    by (subst render_rows_eq) (simp only: map_zip_index_nth [OF i] renderLine_highlighted)
qed

lemma window_subset: "set (window v h) \<subseteq> set (renderedLines v)"
  by (simp add: window_def slice_subset)

lemma render_rows: "renderedLines (snd (render v w h)) = renderedLines v"
  by (simp add: render_state)

lemma slice_nth:
  "0 \<le> a \<Longrightarrow> a \<le> b \<Longrightarrow> b \<le> int (length xs) \<Longrightarrow> i < nat (b - a)
   \<Longrightarrow> slice xs a b ! i = xs ! (nat a + i)"
  by (auto simp: slice_def Let_def)

section \<open>The width of a row, by the repository's escape pattern\<close>

lemma isParam_notESC: "isParamChar c \<Longrightarrow> c \<noteq> ESC \<and> c \<noteq> CH_m \<and> c \<noteq> 0x5B"
  by (auto simp: isParamChar_def ESC_def CH_m_def)

lemma sgrScan_InParams_split:
  "sgrScan InParams xs \<Longrightarrow>
   \<exists>ps rest. xs = ps @ CH_m # rest \<and> list_all isParamChar ps \<and> sgrScan Text rest"
proof (induction xs)
  case Nil
  then show ?case by simp
next
  case (Cons c cs)
  show ?case
  proof (cases "c = CH_m")
    case True
    then have "sgrScan Text cs" using Cons.prems by simp
    then show ?thesis using True by (intro exI [of _ "[]"] exI [of _ cs]) simp
  next
    case False
    then have c: "isParamChar c" "sgrScan InParams cs" using Cons.prems by auto
    then obtain ps rest where "cs = ps @ CH_m # rest" "list_all isParamChar ps" "sgrScan Text rest"
      using Cons.IH by blast
    then show ?thesis using c by (intro exI [of _ "c # ps"] exI [of _ rest]) simp
  qed
qed

lemma sgrScan_sequence:
  "list_all isParamChar ps \<Longrightarrow> sgrScan InParams (ps @ CH_m # rest) = sgrScan Text rest"
  by (induction ps) (auto dest: isParam_notESC)

lemma sgrOnly_cases:
  assumes "sgrOnly s"
  shows "s = [] \<or> (\<exists>c cs. s = c # cs \<and> c \<noteq> ESC \<and> sgrOnly cs)
    \<or> (\<exists>ps rest. s = ESC # 0x5B # ps @ CH_m # rest \<and> list_all isParamChar ps \<and> sgrOnly rest)"
proof (cases s)
  case Nil
  then show ?thesis by simp
next
  case (Cons c cs)
  show ?thesis
  proof (cases "c = ESC")
    case False
    then show ?thesis using assms Cons by (simp add: sgrOnly_def)
  next
    case True
    then have a: "sgrScan AfterEsc cs" using assms Cons by (simp add: sgrOnly_def)
    then obtain d ds where cs: "cs = d # ds" by (cases cs) auto
    then have "d = 0x5B" "sgrScan InParams ds" using a by auto
    then show ?thesis
      using sgrScan_InParams_split [of ds] Cons True cs by (auto simp: sgrOnly_def)
  qed
qed

lemma sgrOnly_induct [consumes 1, case_names Nil Visible Sequence]:
  assumes "sgrOnly s"
    and "P []"
    and "\<And>c cs. c \<noteq> ESC \<Longrightarrow> sgrOnly cs \<Longrightarrow> P cs \<Longrightarrow> P (c # cs)"
    and "\<And>ps rest. list_all isParamChar ps \<Longrightarrow> sgrOnly rest \<Longrightarrow> P rest
           \<Longrightarrow> P (ESC # 0x5B # ps @ CH_m # rest)"
  shows "P s"
  using assms(1)
proof (induction s rule: length_induct)
  case (1 s)
  from sgrOnly_cases [OF 1(2)] show ?case
  proof (elim disjE exE conjE)
    assume "s = []"
    then show ?thesis using assms(2) by simp
  next
    fix c cs assume "s = c # cs" "c \<noteq> ESC" "sgrOnly cs"
    then show ?thesis using 1(1) assms(3) by simp
  next
    fix ps rest assume "s = ESC # 0x5B # ps @ CH_m # rest" "list_all isParamChar ps" "sgrOnly rest"
    then show ?thesis using 1(1) assms(4) by simp
  qed
qed

lemma sgrScan_append: "sgrScan st a \<Longrightarrow> sgrScan st (a @ b) = sgrScan Text b"
  by (induction st a rule: sgrScan.induct) (auto split: if_splits)

lemma sgrOnly_append: "sgrOnly a \<Longrightarrow> sgrOnly b \<Longrightarrow> sgrOnly (a @ b)"
  by (simp add: sgrOnly_def sgrScan_append)

lemma sgrScan_before_ESC: "sgrScan st (p @ ESC # q) \<Longrightarrow> sgrScan st p"
proof (induction st p rule: sgrScan.induct)
  case (1 st)
  then show ?case by (cases st) (auto simp: ESC_def CH_m_def isParamChar_def)
qed (auto split: if_splits)

lemma dropWhile_params:
  "list_all isParamChar ps \<Longrightarrow> dropWhile isParamChar (ps @ CH_m # rest) = CH_m # rest"
  by (induction ps) (auto dest: isParam_notESC)

lemma params_no_ESC_m:
  "list_all isParamChar ps \<Longrightarrow> ESC \<notin> set (0x5B # ps) \<and> CH_m \<notin> set (0x5B # ps)"
  by (induction ps) (auto simp: ESC_def CH_m_def dest: isParam_notESC)

lemma stripAnsi_sequence:
  "list_all isParamChar ps \<Longrightarrow> stripAnsi (ESC # 0x5B # ps @ CH_m # rest) = stripAnsi rest"
  by (simp add: dropWhile_params)

lemma stripAnsi_visible: "c \<noteq> ESC \<Longrightarrow> stripAnsi (c # cs) = c # stripAnsi cs"
  by simp

lemma stripAnsi_sgrOnly: "sgrOnly s \<Longrightarrow> stripAnsi s = visibleChars False s"
proof (induction s rule: sgrOnly_induct)
  case Nil
  show ?case by simp
next
  case (Visible c cs)
  then show ?case by (simp add: stripAnsi_visible del: stripAnsi.simps)
next
  case (Sequence ps rest)
  have "visibleChars True ((0x5B # ps) @ CH_m # rest) = visibleChars False rest"
    using params_no_ESC_m [OF Sequence(1)] by (intro visibleChars_escape_body) auto
  then show ?case
    using Sequence by (simp add: stripAnsi_sequence del: stripAnsi.simps)
qed

lemma sgrOnly_sequence:
  "list_all isParamChar ps \<Longrightarrow> sgrOnly (ESC # 0x5B # ps @ CH_m # rest) = sgrOnly rest"
  by (simp add: sgrOnly_def sgrScan_sequence)

lemma truncLoop_sgrOnly:
  "sgrOnly s \<Longrightarrow>
   sgrOnly (truncLoop w s vis [] False []) \<and> (\<exists>post. s = truncLoop w s vis [] False [] @ post)"
proof (induction s arbitrary: vis rule: sgrOnly_induct)
  case Nil
  show ?case by (simp add: sgrOnly_def)
next
  case (Visible c cs)
  show ?case
  proof (cases "vis \<ge> w")
    case True
    then show ?thesis using Visible(1) by (simp add: sgrOnly_def)
  next
    case False
    have "truncLoop w (c # cs) vis [] False [] = [c] @ truncLoop w cs (vis + 1) [] False []"
      using Visible(1) False truncLoop_acc0 [of w cs "vis + 1" "[c]" False "[]"] by simp
    then show ?thesis
      using Visible(1) Visible(3) [of "vis + 1"] by (auto simp: sgrOnly_def)
  qed
next
  case (Sequence ps rest)
  have no: "ESC \<notin> set (0x5B # ps)" "CH_m \<notin> set (0x5B # ps)"
    using params_no_ESC_m [OF Sequence(1)] by auto
  have "truncLoop w (ESC # (0x5B # ps) @ CH_m # rest) vis [] False [] =
      truncLoop w rest vis ([] @ [ESC] @ (0x5B # ps) @ [CH_m]) False []"
    using truncLoop_in_escape [OF no, of w rest vis "[]" "[ESC]"] by simp
  then have eq: "truncLoop w (ESC # 0x5B # ps @ CH_m # rest) vis [] False [] =
      (ESC # 0x5B # ps @ [CH_m]) @ truncLoop w rest vis [] False []"
    using truncLoop_acc0 [of w rest vis "ESC # 0x5B # ps @ [CH_m]" False "[]"] by simp
  obtain post where post: "rest = truncLoop w rest vis [] False [] @ post"
    using Sequence(3) [of vis] by blast
  have "sgrOnly ((ESC # 0x5B # ps @ [CH_m]) @ truncLoop w rest vis [] False [])"
    using Sequence(3) [of vis] sgrOnly_sequence [OF Sequence(1)] by simp
  moreover have "ESC # 0x5B # ps @ CH_m # rest =
      ((ESC # 0x5B # ps @ [CH_m]) @ truncLoop w rest vis [] False []) @ post"
    using post by simp
  ultimately show ?case unfolding eq by blast
qed

lemma sgrOnly_RESET: "sgrOnly RESET"
  by (simp add: sgrOnly_def RESET_def js_def ESC_def CH_m_def isParamChar_def)

lemma truncateToWidth_sgrOnly:
  assumes "sgrOnly s"
  shows "sgrOnly (truncateToWidth s w)"
    and "stripAnsi (truncateToWidth s w) = take (nat w) (stripAnsi s)"
    and "\<exists>pre post. s = pre @ post
           \<and> (truncateToWidth s w = pre \<or> truncateToWidth s w = pre @ RESET)"
proof -
  show a: "sgrOnly (truncateToWidth s w)"
    using truncLoop_sgrOnly [OF assms, of w 0]
    by (simp add: truncateToWidth_def Let_def sgrOnly_append sgrOnly_RESET)
  show "stripAnsi (truncateToWidth s w) = take (nat w) (stripAnsi s)"
    using stripAnsi_sgrOnly [OF a] stripAnsi_sgrOnly [OF assms] truncateToWidth_chars [of s w]
    by simp
  obtain post where "s = truncLoop w s 0 [] False [] @ post"
    using truncLoop_sgrOnly [OF assms, of w 0] by blast
  then show "\<exists>pre post. s = pre @ post
           \<and> (truncateToWidth s w = pre \<or> truncateToWidth s w = pre @ RESET)"
    by (auto simp: truncateToWidth_def Let_def)
qed

lemma startsWith_split: "startsWith s p \<Longrightarrow> \<exists>q. s = p @ q"
  by (induction s p rule: startsWith.induct) auto

lemma endsWith_split: "endsWith s p \<Longrightarrow> s = take (length s - length p) s @ p"
proof -
  assume "endsWith s p"
  then obtain q where "rev s = rev p @ q"
    using startsWith_split by (auto simp: endsWith_def)
  then have "s = rev q @ p" by (metis rev_append rev_rev_ident)
  then show ?thesis by simp
qed

lemma sgrOnly_highlighted:
  assumes "sgrOnly (rcontent line)"
  shows "sgrOnly (highlighted v i line)"
proof -
  have bg: "sgrOnly BG_ON" and off: "sgrOnly BG_OFF"
    by (simp_all add: sgrOnly_def BG_ON_def BG_OFF_def js_def ESC_def CH_m_def isParamChar_def)
  have "sgrOnly (replaceFinalReset (rcontent line))"
  proof (cases "endsWith (rcontent line) RESET")
    case False
    then show ?thesis using assms by (simp add: replaceFinalReset_def)
  next
    case True
    let ?p = "take (length (rcontent line) - length RESET) (rcontent line)"
    have "rcontent line = ?p @ RESET" using endsWith_split [OF True] .
    then have "sgrScan Text (?p @ ESC # js ''[0m'')"
      using assms by (simp add: sgrOnly_def RESET_def)
    then have "sgrOnly ?p" using sgrScan_before_ESC by (simp add: sgrOnly_def)
    then show ?thesis
      using True by (simp add: replaceFinalReset_def sgrOnly_append off sgrOnly_RESET)
  qed
  then show ?thesis
    using assms bg by (simp add: highlighted_def Let_def sgrOnly_append)
qed

lemma no_ESC_sgrScan: "ESC \<notin> set s \<Longrightarrow> sgrScan Text s"
  by (induction s) auto

lemma no_ESC_sgrOnly: "ESC \<notin> set s \<Longrightarrow> sgrOnly s"
  by (simp add: sgrOnly_def no_ESC_sgrScan)

lemma digit_not_ESC: "k < 100 \<Longrightarrow> 48 \<le> k \<Longrightarrow> (of_nat k :: jschar) \<noteq> ESC"
proof
  assume k: "k < 100" "48 \<le> k" and e: "(of_nat k :: jschar) = ESC"
  have "unat (of_nat k :: jschar) = k" using k by (simp add: unat_of_nat)
  moreover have "unat ESC = 27" by (simp add: ESC_def)
  ultimately show False using e k by simp
qed

lemma digits_no_ESC: "ESC \<notin> set (digits n)"
proof (induction n rule: digits.induct)
  case (1 n)
  show ?case
  proof (cases "n < 10")
    case True
    then show ?thesis using digit_not_ESC [of "48 + n"] by (subst digits.simps) auto
  next
    case False
    have "n mod 10 < 10" by simp
    then have "(of_nat (48 + n mod 10) :: jschar) \<noteq> ESC"
      by (intro digit_not_ESC) auto
    then show ?thesis using 1 False by (subst digits.simps) auto
  qed
qed

lemma lineNumStr_no_ESC: "ESC \<notin> set (padStart (toString n) w)"
  using digits_no_ESC by (auto simp: padStart_def toString_def js_def ESC_def)

lemma sgrOnly_colors: "sgrOnly GREEN \<and> sgrOnly RED \<and> sgrOnly DIM"
  by (simp add: sgrOnly_def GREEN_def RED_def DIM_def js_def ESC_def CH_m_def isParamChar_def)

lemma renderHunk_sgrOnly:
  assumes "sgrOnly (shownText hl fp hunk)"
  shows "sgrOnly (rcontent (renderHunk hl fp hunk w))"
proof -
  let ?n = "padStart (toString (case currentLineNumber hunk of Some n \<Rightarrow> n | None \<Rightarrow> 0)) w"
  have pre: "sgrOnly (?n @ js '' '' @ (case type hunk of Added \<Rightarrow> js ''+'' | Removed \<Rightarrow> js ''-''
                    | Context \<Rightarrow> js '' '') @ js '' '')"
    using lineNumStr_no_ESC
    by (intro no_ESC_sgrOnly) (auto simp: js_def ESC_def split: line_type.splits)
  have col: "sgrOnly (case type hunk of Added \<Rightarrow> GREEN | Removed \<Rightarrow> RED | Context \<Rightarrow> DIM)"
    using sgrOnly_colors by (simp split: line_type.splits)
  have "rcontent (renderHunk hl fp hunk w) =
      (case type hunk of Added \<Rightarrow> GREEN | Removed \<Rightarrow> RED | Context \<Rightarrow> DIM)
      @ (?n @ js '' '' @ (case type hunk of Added \<Rightarrow> js ''+'' | Removed \<Rightarrow> js ''-''
                    | Context \<Rightarrow> js '' '') @ js '' '')
      @ shownText hl fp hunk @ RESET"
    by (simp add: renderHunk_def Let_def shownText_def)
  then show ?thesis
    using pre col assms by (simp only: sgrOnly_append sgrOnly_RESET)
qed

lemma sgrRows_build:
  assumes "list_all (\<lambda>hunk. sgrOnly (shownText (highlightFn v) (filePath (diff v)) hunk))
             (hunks (diff v))"
  shows "sgrRows (buildRenderedLines v)"
proof -
  have sep: "sgrOnly (rcontent createSeparatorLine)"
  proof -
    have "sgrOnly DOTS" by (intro no_ESC_sgrOnly) (simp add: DOTS_def ESC_def)
    then show ?thesis
      using sgrOnly_colors
      by (simp only: createSeparatorLine_def RenderedLine.simps sgrOnly_append sgrOnly_RESET)
  qed
  have "sgrOnly (rcontent line)"
    if "line \<in> set (expectedRows (highlightFn v) (filePath (diff v)) w (hunks (diff v)) is)"
      and "set is \<subseteq> {0 ..< length (hunks (diff v))}" for line w "is"
    using that assms sep renderHunk_sgrOnly
    by (auto simp: expectedRows_def list_all_iff split: if_splits)
  then show ?thesis
    using buildRenderedLines_spec [of v] by (auto simp: sgrRows_def list_all_iff)
qed

lemma sgrRows_new:
  "list_all (\<lambda>hunk. sgrOnly (shownText hl (filePath d) hunk)) (hunks d)
   \<Longrightarrow> sgrRows (new_InlineDiffView d hl)"
  unfolding new_InlineDiffView_def by (rule sgrRows_build) simp

text \<open>
  C3, as the code has it.  Take a view whose styled rows hold the ESC character only at
  the start of colour sequences \<open>ESC[\<dots>m\<close> (digits and semicolons between the bracket
  and the \<open>m\<close>); the constructor builds such a view whenever the line texts, and what
  the highlighter makes of them, are of that kind (lemma \<open>sgrRows_new\<close>).  Then for every
  width \<open>\<ge> 0\<close> and every height, row \<open>i\<close> returned by \<open>render\<close> is the truncation of
  the highlighted row \<open>i\<close> of the window, a row of the view; with the escape sequences
  stripped by the repository's pattern it has at most \<open>width\<close> characters, namely the
  first \<open>width\<close> visible characters of that row; and it is a prefix of that row, so
  every escape sequence in it is passed through as it was, with at most a closing reset
  added.
\<close>

theorem render_rows_within_width:
  assumes "0 \<le> width" and "sgrRows v" and "i < length (fst (render v width height))"
  shows "window (snd (render v width height)) height ! i \<in> set (renderedLines v)
    \<and> fst (render v width height) ! i =
        truncateToWidth
          (highlighted (snd (render v width height))
             (scrollOffset (snd (render v width height)) + int i)
             (window (snd (render v width height)) height ! i)) width
    \<and> int (length (stripAnsi (fst (render v width height) ! i))) \<le> width
    \<and> stripAnsi (fst (render v width height) ! i) =
        take (nat width)
          (stripAnsi (highlighted (snd (render v width height))
             (scrollOffset (snd (render v width height)) + int i)
             (window (snd (render v width height)) height ! i)))
    \<and> (\<exists>pre post.
          highlighted (snd (render v width height))
             (scrollOffset (snd (render v width height)) + int i)
             (window (snd (render v width height)) height ! i) = pre @ post
          \<and> (fst (render v width height) ! i = pre
              \<or> fst (render v width height) ! i = pre @ RESET))"
proof -
  let ?v = "snd (render v width height)"
  let ?line = "window ?v height ! i"
  let ?shown = "highlighted ?v (scrollOffset ?v + int i) ?line"
  let ?r = "fst (render v width height) ! i"
  have i: "i < length (window ?v height)"
    using assms(3) render_rows_window(1) [of v width height] by simp
  then have "?line \<in> set (window ?v height)" by simp
  then have mem: "?line \<in> set (renderedLines v)"
    using window_subset [of ?v height] render_rows [of v width height] by auto
  then have "sgrOnly (rcontent ?line)"
    using assms(2) by (simp add: sgrRows_def list_all_iff)
  then have sgr: "sgrOnly ?shown" by (rule sgrOnly_highlighted)
  have r: "?r = truncateToWidth ?shown width"
    using render_rows_window(2) [OF assms(3)] .
  have strip: "stripAnsi ?r = take (nat width) (stripAnsi ?shown)"
    unfolding r using truncateToWidth_sgrOnly(2) [OF sgr] .
  then have len: "int (length (stripAnsi ?r)) \<le> width"
    using assms(1) by simp
  have "\<exists>pre post. ?shown = pre @ post \<and> (?r = pre \<or> ?r = pre @ RESET)"
    unfolding r using truncateToWidth_sgrOnly(3) [OF sgr] .
  with mem r len strip show ?thesis by blast
qed

theorem render_rows_within_width_witness:
  "(0::int) \<le> 3
   \<and> sgrRows (new_InlineDiffView gapDiff None)
   \<and> 0 < length (fst (render (new_InlineDiffView gapDiff None) 3 10))
   \<and> fst (render (new_InlineDiffView gapDiff None) 3 10) ! 0 = BG_ON @ DIM @ js '' 1 '' @ RESET
   \<and> stripAnsi (fst (render (new_InlineDiffView gapDiff None) 3 10) ! 0) = js '' 1 ''
   \<and> int (length (stripAnsi (fst (render (new_InlineDiffView gapDiff None) 3 10) ! 0))) \<le> 3"
proof -
  let ?v = "new_InlineDiffView gapDiff None"
  have w: "(0::int) \<le> 3" by simp
  have sgr: "sgrRows ?v"
    by (rule sgrRows_new)
      (simp add: gapDiff_def contextLine_def shownText_def sgrOnly_def js_def ESC_def)
  have len: "0 < length (fst (render ?v 3 10))"
    by code_simp
  have row: "fst (render ?v 3 10) ! 0 = BG_ON @ DIM @ js '' 1 '' @ RESET"
    by code_simp
  have strip: "stripAnsi (BG_ON @ DIM @ js '' 1 '' @ RESET) = js '' 1 ''"
    by code_simp
  from render_rows_within_width [OF w sgr len] w sgr len row strip show ?thesis by simp
qed

text \<open>
  Without the condition on the rows the bound fails when the width is measured with the
  repository's pattern: \<open>truncateToWidth\<close> takes everything from an ESC to the next \<open>m\<close>
  for an escape sequence.  The line \<open>ESC[Khello worldm tail\<close> rendered at width 4 gives a
  row that still has 19 characters after stripping.
\<close>

theorem escape_row_counterexample:
  "length (fst (render (new_InlineDiffView escapeDiff None) 4 10)) = 1
   \<and> length (stripAnsi (fst (render (new_InlineDiffView escapeDiff None) 4 10) ! 0)) = 19"
  by code_simp

section \<open>The scroll correction of \<open>render\<close>\<close>

text \<open>
  C4, as the code has it.  \<open>render\<close> makes the two corrections and then caps the scroll
  offset at \<open>max(0, rows - height)\<close> with a minimum only; it has no lower clamp and does
  not move the cursor, so the offset the specification describes is the larger of 0 and
  the offset \<open>render\<close> leaves.  In a view that satisfies its invariant (scroll offset
  \<open>\<ge> 0\<close>, cursor inside the rows) the two are equal and the offset is in
  \<open>[0, max(0, rows - height)]\<close>; when moreover there are rows and \<open>height \<ge> 1\<close>, the cursor
  is inside the window, \<open>scrollOffset \<le> cursorLine < scrollOffset + height\<close>, and the row
  returned at index \<open>cursorLine - scrollOffset\<close> is the cursor's row, highlighted and
  truncated.
\<close>

theorem render_autoscroll:
  "spec_autoscroll (cursorLine v) (scrollOffset v) h (int (length (renderedLines v))) =
      max 0 (scrollOffset (snd (render v w h)))
   \<and> scrollOffset (snd (render v w h)) \<le> max 0 (int (length (renderedLines v)) - h)
   \<and> cursorLine (snd (render v w h)) = cursorLine v
   \<and> (view_inv v \<longrightarrow>
         scrollOffset (snd (render v w h)) =
           spec_autoscroll (cursorLine v) (scrollOffset v) h (int (length (renderedLines v)))
         \<and> 0 \<le> scrollOffset (snd (render v w h))
         \<and> (renderedLines v \<noteq> [] \<and> 1 \<le> h \<longrightarrow>
               scrollOffset (snd (render v w h)) \<le> cursorLine v
               \<and> cursorLine v < scrollOffset (snd (render v w h)) + h
               \<and> nat (cursorLine v - scrollOffset (snd (render v w h)))
                   < length (fst (render v w h))
               \<and> fst (render v w h) ! nat (cursorLine v - scrollOffset (snd (render v w h))) =
                   truncateToWidth
                     (BG_ON @ replaceFinalReset
                        (rcontent (renderedLines v ! nat (cursorLine v)))) w))"
proof -
  let ?v = "snd (render v w h)"
  let ?so = "scrollOffset ?v"
  let ?n = "int (length (renderedLines v))"
  have a: "spec_autoscroll (cursorLine v) (scrollOffset v) h ?n = max 0 ?so"
    unfolding render_state spec_autoscroll_def Let_def by simp
  have b: "?so \<le> max 0 (?n - h)"
    unfolding render_state by simp
  have c: "cursorLine ?v = cursorLine v"
    unfolding render_state by simp
  have d: "0 \<le> ?so" if "view_inv v"
    using that unfolding render_state view_inv_def by (auto split: if_splits)
  have e: "?so \<le> cursorLine v \<and> cursorLine v < ?so + h
      \<and> nat (cursorLine v - ?so) < length (fst (render v w h))
      \<and> fst (render v w h) ! nat (cursorLine v - ?so) =
          truncateToWidth (BG_ON @ replaceFinalReset
            (rcontent (renderedLines v ! nat (cursorLine v)))) w"
    if inv: "view_inv v" and ne: "renderedLines v \<noteq> []" and h: "1 \<le> h"
  proof -
    have cur: "0 \<le> cursorLine v" "cursorLine v < ?n"
      using inv ne by (auto simp: view_inv_def)
    have so: "?so = spec_autoscroll (cursorLine v) (scrollOffset v) h ?n"
      using a d [OF inv] by simp
    have win: "?so \<le> cursorLine v \<and> cursorLine v < ?so + h"
      using cur h inv unfolding so spec_autoscroll_def Let_def view_inv_def
      by (auto split: if_splits)
    let ?e = "min (?so + h) ?n"
    have bounds: "0 \<le> ?so" "?so \<le> ?e" "?e \<le> ?n"
      using d [OF inv] b h by auto
    have len: "length (fst (render v w h)) = nat (?e - ?so)"
      unfolding render_length using bounds by (intro slice_length) auto
    let ?i = "nat (cursorLine v - ?so)"
    have i: "?i < nat (?e - ?so)" using win cur by auto
    then have ilen: "?i < length (fst (render v w h))" using len by simp
    have "window ?v h ! ?i = renderedLines v ! (nat ?so + ?i)"
      unfolding window_def render_rows using bounds i by (intro slice_nth) auto
    moreover have "nat ?so + ?i = nat (cursorLine v)" using win bounds(1) by arith
    ultimately have line: "window ?v h ! ?i = renderedLines v ! nat (cursorLine v)" by simp
    have idx: "?so + int ?i = cursorLine ?v" using win c by simp
    have "fst (render v w h) ! ?i =
        truncateToWidth (highlighted ?v (?so + int ?i) (window ?v h ! ?i)) w"
      using render_rows_window(2) [OF ilen] .
    also have "\<dots> = truncateToWidth (BG_ON @ replaceFinalReset
        (rcontent (renderedLines v ! nat (cursorLine v)))) w"
      unfolding idx line by (simp add: highlighted_def Let_def)
    finally show ?thesis using win ilen by simp
  qed
  show ?thesis using a b c d e by auto
qed

theorem render_autoscroll_witness:
  "view_inv (scrollToBottom (new_InlineDiffView gapDiff None))
   \<and> renderedLines (scrollToBottom (new_InlineDiffView gapDiff None)) \<noteq> []
   \<and> (1::int) \<le> 2
   \<and> cursorLine (scrollToBottom (new_InlineDiffView gapDiff None)) = 4
   \<and> scrollOffset (scrollToBottom (new_InlineDiffView gapDiff None)) = 5
   \<and> scrollOffset (snd (render (scrollToBottom (new_InlineDiffView gapDiff None)) 80 2)) = 3
   \<and> nat (4 - 3) < length (fst (render (scrollToBottom (new_InlineDiffView gapDiff None)) 80 2))
   \<and> fst (render (scrollToBottom (new_InlineDiffView gapDiff None)) 80 2) ! nat (4 - 3) =
       truncateToWidth (BG_ON @ replaceFinalReset
         (rcontent (renderedLines (scrollToBottom (new_InlineDiffView gapDiff None)) ! nat 4))) 80"
proof -
  let ?v = "scrollToBottom (new_InlineDiffView gapDiff None)"
  have st: "length (renderedLines ?v) = 5 \<and> cursorLine ?v = 4 \<and> scrollOffset ?v = 5"
    using gapDiff_view by (simp add: scrollToBottom_def)
  have inv: "view_inv ?v"
    using st by (auto simp: view_inv_def)
  have ne: "renderedLines ?v \<noteq> []"
    using st by auto
  have so: "spec_autoscroll 4 5 2 5 = 3"
    by (simp add: spec_autoscroll_def)
  have h: "(1::int) \<le> 2" by simp
  have r: "scrollOffset (snd (render ?v 80 2)) = 3"
    using render_autoscroll [of ?v 2 80] inv st so by simp
  have "nat (cursorLine ?v - scrollOffset (snd (render ?v 80 2)))
      < length (fst (render ?v 80 2))
    \<and> fst (render ?v 80 2) ! nat (cursorLine ?v - scrollOffset (snd (render ?v 80 2))) =
       truncateToWidth (BG_ON @ replaceFinalReset
         (rcontent (renderedLines ?v ! nat (cursorLine ?v)))) 80"
    using render_autoscroll [of ?v 2 80] inv ne h by blast
  then have "nat (4 - 3) < length (fst (render ?v 80 2))
    \<and> fst (render ?v 80 2) ! nat (4 - 3) =
       truncateToWidth (BG_ON @ replaceFinalReset (rcontent (renderedLines ?v ! nat 4))) 80"
    using st r by simp
  with r st ne inv show ?thesis by simp
qed

text \<open>
  The claim as stated fails in a state the public operations reach: after
  \<open>scrollDown(-1)\<close> on a fresh view of five rows the offset is -1, and \<open>render\<close> with height
  10 leaves it at -1 where the specified clamp gives 0; it returns one row, the last, and
  not the cursor's.
\<close>

theorem render_no_lower_clamp_counterexample:
  "scrollOffset (scrollDown (new_InlineDiffView gapDiff None) (- 1)) = - 1
   \<and> cursorLine (scrollDown (new_InlineDiffView gapDiff None) (- 1)) = 0
   \<and> spec_autoscroll (cursorLine (scrollDown (new_InlineDiffView gapDiff None) (- 1)))
        (scrollOffset (scrollDown (new_InlineDiffView gapDiff None) (- 1))) 10
        (int (length (renderedLines (scrollDown (new_InlineDiffView gapDiff None) (- 1))))) = 0
   \<and> scrollOffset (snd (render (scrollDown (new_InlineDiffView gapDiff None) (- 1)) 80 10)) = - 1
   \<and> length (fst (render (scrollDown (new_InlineDiffView gapDiff None) (- 1)) 80 10)) = 1"
proof -
  let ?v = "scrollDown (new_InlineDiffView gapDiff None) (- 1)"
  have st: "length (renderedLines ?v) = 5 \<and> cursorLine ?v = 0 \<and> scrollOffset ?v = - 1"
    using gapDiff_view by (simp add: scrollDown_def moveCursor_def setCursor_def Let_def)
  have spec: "spec_autoscroll 0 (- 1) 10 5 = 0"
    by (simp add: spec_autoscroll_def)
  have so: "scrollOffset (snd (render ?v 80 10)) = - 1"
    unfolding render_state using st by simp
  have "length (fst (render ?v 80 10)) = 1"
    unfolding render_length so using st by (simp add: slice_def)
  with st spec so show ?thesis by simp
qed

section \<open>The session invariant of the file navigator\<close>

lemma twoFiles_changed: "getChangedFiles twoFiles = [js ''file1.ts'', js ''file2.ts'']"
  by (simp add: twoFiles_def trackFile_def isTracked_def getChangedFiles_def js_def)

lemma twoFiles_modal:
  "length (fileList (new_DiffReviewModal sp twoFiles)) = 2
   \<and> map entry_path (fileList (new_DiffReviewModal sp twoFiles)) =
       [js ''file1.ts'', js ''file2.ts'']
   \<and> entry_path (fileList (new_DiffReviewModal sp twoFiles) ! 1) = js ''file2.ts''
   \<and> selectedIndex (new_DiffReviewModal sp twoFiles) = 0
   \<and> \<not> filePickerOpen (new_DiffReviewModal sp twoFiles)
   \<and> diffState (new_DiffReviewModal sp twoFiles) = twoFiles"
  by (simp add: new_DiffReviewModal_def refresh_def Let_def twoFiles_changed
      split: option.splits)

text \<open>
  What does hold: \<open>refresh\<close> brings the selection back inside the new file list, whatever
  the ledger has become.  It does not touch the picker index.
\<close>

lemma refresh_selection:
  "0 \<le> selectedIndex m \<Longrightarrow> index_ok (fileList (refresh sp m)) (selectedIndex (refresh sp m))"
  by (auto simp: refresh_def Let_def index_ok_def)

lemma refresh_picker:
  "filePickerIndex (refresh sp m) = filePickerIndex m
   \<and> filePickerOpen (refresh sp m) = filePickerOpen m"
  by (simp add: refresh_def Let_def)

text \<open>
  The navigation operations preserve the whole invariant, \<open>confirmFilePickerSelection\<close>
  preserves it while the picker is open, and \<open>dismissSelected\<close> (through \<open>refresh\<close>) keeps
  the selection inside the list.
\<close>

lemma js_rem_in_range: "0 \<le> i \<Longrightarrow> 0 < n \<Longrightarrow> 0 \<le> js_rem (i + 1) n \<and> js_rem (i + 1) n < n"
  by (simp add: js_rem_def sgn_if)

lemma modal_navigation_preserves:
  assumes "modal_inv m"
  shows "modal_inv (selectNext m) \<and> modal_inv (selectPrevious m) \<and> modal_inv (selectIndex m i)
    \<and> modal_inv (openFilePicker m) \<and> modal_inv (closeFilePicker m)
    \<and> modal_inv (filePickerNext m) \<and> modal_inv (filePickerPrevious m)"
proof (cases "fileList m = []")
  case True
  then show ?thesis
    using assms
    by (auto simp: modal_inv_def index_ok_def selectNext_def selectPrevious_def selectIndex_def
        openFilePicker_def closeFilePicker_def filePickerNext_def filePickerPrevious_def
        split: if_splits)
next
  case False
  then have n: "0 < int (length (fileList m))" by simp
  have sel: "0 \<le> selectedIndex m" "selectedIndex m < int (length (fileList m))"
    using assms False by (auto simp: modal_inv_def index_ok_def)
  have pick: "filePickerOpen m \<Longrightarrow>
      0 \<le> filePickerIndex m \<and> filePickerIndex m < int (length (fileList m))"
    using assms False by (auto simp: modal_inv_def index_ok_def)
  show ?thesis
    using False sel pick js_rem_in_range [OF sel(1) n]
      js_rem_in_range [of "filePickerIndex m" "int (length (fileList m))"] n
    by (auto simp: modal_inv_def index_ok_def selectNext_def selectPrevious_def selectIndex_def
        openFilePicker_def closeFilePicker_def filePickerNext_def filePickerPrevious_def)
qed

lemma confirm_preserves_when_open:
  "modal_inv m \<Longrightarrow> filePickerOpen m \<Longrightarrow> modal_inv (confirmFilePickerSelection m)"
  by (simp add: modal_inv_def confirmFilePickerSelection_def)

lemma dismissSelected_selection:
  "0 \<le> selectedIndex m \<Longrightarrow>
   index_ok (fileList (snd (dismissSelected sp m))) (selectedIndex (snd (dismissSelected sp m)))
   \<or> snd (dismissSelected sp m) = m"
  using refresh_selection
  by (auto simp: dismissSelected_def Let_def index_ok_def split: option.splits)

text \<open>
  C8 does not hold of the code.  With two changed files, select the second, open the
  picker (picker index 1) and dismiss the selected file: the list shrinks to one file and
  \<open>refresh\<close> clamps the selection to 0, but the picker is still open with index 1, outside
  the list.  \<open>confirmFilePickerSelection\<close> then copies that index into the selection
  unclamped, so the selection is outside the list too and no file is selected.
\<close>

theorem picker_index_not_clamped:
  "modal_inv (openFilePicker (selectIndex (new_DiffReviewModal sp twoFiles) 1))
   \<and> filePickerIndex (openFilePicker (selectIndex (new_DiffReviewModal sp twoFiles) 1)) = 1
   \<and> length (fileList (snd (dismissSelected sp
         (openFilePicker (selectIndex (new_DiffReviewModal sp twoFiles) 1))))) = 1
   \<and> filePickerOpen (snd (dismissSelected sp
         (openFilePicker (selectIndex (new_DiffReviewModal sp twoFiles) 1))))
   \<and> filePickerIndex (snd (dismissSelected sp
         (openFilePicker (selectIndex (new_DiffReviewModal sp twoFiles) 1)))) = 1
   \<and> \<not> modal_inv (snd (dismissSelected sp
         (openFilePicker (selectIndex (new_DiffReviewModal sp twoFiles) 1))))
   \<and> selectedIndex (confirmFilePickerSelection (snd (dismissSelected sp
         (openFilePicker (selectIndex (new_DiffReviewModal sp twoFiles) 1))))) = 1
   \<and> selectedFile (confirmFilePickerSelection (snd (dismissSelected sp
         (openFilePicker (selectIndex (new_DiffReviewModal sp twoFiles) 1))))) = None
   \<and> \<not> modal_inv (confirmFilePickerSelection (snd (dismissSelected sp
         (openFilePicker (selectIndex (new_DiffReviewModal sp twoFiles) 1)))))"
proof -
  let ?m0 = "new_DiffReviewModal sp twoFiles"
  let ?m2 = "openFilePicker (selectIndex ?m0 1)"
  let ?m3 = "snd (dismissSelected sp ?m2)"
  let ?m4 = "confirmFilePickerSelection ?m3"
  have ne: "fileList ?m0 \<noteq> []"
    using twoFiles_modal [of sp] by auto
  have m2: "selectedIndex ?m2 = 1 \<and> filePickerIndex ?m2 = 1 \<and> filePickerOpen ?m2
      \<and> fileList ?m2 = fileList ?m0 \<and> diffState ?m2 = twoFiles"
    using twoFiles_modal [of sp] ne by (simp add: openFilePicker_def selectIndex_def)
  have inv2: "modal_inv ?m2"
    using m2 twoFiles_modal [of sp] ne by (simp add: modal_inv_def index_ok_def)
  have sel: "selectedFile ?m2 = Some (js ''file2.ts'')"
    using m2 ne twoFiles_modal [of sp] by (simp add: selectedFile_def at_index_def)
  have changed: "getChangedFiles (dismissFile twoFiles (js ''file2.ts'')) = [js ''file1.ts'']"
    by (simp add: twoFiles_def trackFile_def isTracked_def getChangedFiles_def dismissFile_def
        js_def)
  have nonempty: "js ''file2.ts'' \<noteq> []"
    by (simp add: js_def)
  have m3: "length (fileList ?m3) = 1 \<and> filePickerOpen ?m3 \<and> filePickerIndex ?m3 = 1
      \<and> selectedIndex ?m3 = 0"
    using m2 by (simp add: dismissSelected_def sel nonempty Let_def refresh_def changed
        split: option.splits)
  have inv3: "\<not> modal_inv ?m3"
    using m3 by (auto simp: modal_inv_def index_ok_def)
  have m4: "selectedIndex ?m4 = 1 \<and> length (fileList ?m4) = 1"
    using m3 by (simp add: confirmFilePickerSelection_def)
  have none: "selectedFile ?m4 = None"
    using m4 by (auto simp: selectedFile_def at_index_def)
  have inv4: "\<not> modal_inv ?m4"
    using m4 by (auto simp: modal_inv_def index_ok_def)
  show ?thesis
    using inv2 m2 m3 inv3 m4 none inv4 by simp
qed

section \<open>The number of rows of the overlay\<close>

lemma targetHeight_ge: "20 \<le> targetHeight env"
  by (simp add: targetHeight_def Let_def)

lemma padLoop_length:
  "int (length (padLoop out T e)) = max (int (length out)) (T - 1)"
proof (induction out T e rule: padLoop.induct)
  case (1 out T e)
  show ?case
  proof (cases "int (length out) < T - 1")
    case True
    then show ?thesis using 1 by (subst padLoop.simps) auto
  next
    case False
    then show ?thesis by (subst padLoop.simps) auto
  qed
qed

lemma padLoop_hd: "out \<noteq> [] \<Longrightarrow> hd (padLoop out T e) = hd out"
proof (induction out T e rule: padLoop.induct)
  case (1 out T e)
  show ?case
  proof (cases "int (length out) < T - 1")
    case True
    then show ?thesis using 1 by (subst padLoop.simps) auto
  next
    case False
    then show ?thesis by (subst padLoop.simps) auto
  qed
qed

lemma slice_window_length:
  "0 \<le> h \<Longrightarrow> length (slice xs a (min (a + h) (int (length xs)))) \<le> nat h"
  by (auto simp: slice_def Let_def min_def max_def)

lemma render_at_most_height:
  "0 \<le> h \<Longrightarrow> int (length (fst (render v w h))) \<le> h"
  using slice_window_length [of h "renderedLines v" "scrollOffset (snd (render v w h))"]
  by (simp add: render_length)

lemma diffContent_ok:
  assumes "4 \<le> width" and "at_index (fileList (modal st)) (selectedIndex (modal st)) = Some f"
  shows "\<exists>c vc'. diffContent env width st = Inr (c, vc')
           \<and> 2 \<le> int (length c) \<and> int (length c) \<le> targetHeight env - 5"
proof (cases "viewController st")
  case None
  then show ?thesis
    using assms targetHeight_ge [of env]
    by (simp add: diffContent_def Let_def repeat_def)
next
  case (Some vc)
  let ?h = "max 5 (targetHeight env - 8)"
  have h: "?h = targetHeight env - 8" using targetHeight_ge [of env] by simp
  have "int (length (fst (render vc (width - 4) ?h))) \<le> ?h"
    by (rule render_at_most_height) simp
  then show ?thesis
    using assms Some h
    by (auto simp: diffContent_def Let_def repeat_def split: prod.splits)
qed

lemma hd_update_last: "2 \<le> length xs \<Longrightarrow> hd (xs[length xs - Suc 0 := y]) = hd xs"
proof -
  assume a: "2 \<le> length xs"
  then have "xs \<noteq> []" and "length xs - Suc 0 \<noteq> 0" by auto
  then show ?thesis by (simp add: hd_conv_nth)
qed

lemma padLoop_id: "\<not> int (length out) < T - 1 \<Longrightarrow> padLoop out T e = out"
  by (subst padLoop.simps) simp

lemma overlay_render_assembled:
  assumes "2 \<le> width"
    and "(if fileList (modal st) = [] then Inr (noFilesContent env, viewController st)
          else if filePickerOpen (modal st)
          then Inr (pickerContent env (modal st), viewController st)
          else diffContent env width st) = Inr (c, vc')"
  shows "overlay_render env st width =
     Inr (assembled env width (fileList (modal st) \<noteq> [] \<and> \<not> filePickerOpen (modal st)) c,
          vc')"
  using assms(1)
  unfolding overlay_render_def Let_def assms(2) assembled_def
  by (simp add: emptyLine_def bottomBorder_def repeat_def padLoop_id)

lemma assembled_rows:
  assumes "2 \<le> width"
  shows "int (length (assembled env width showHelp c)) =
           max (int (length c) + 2) (targetHeight env)
    \<and> hd (assembled env width showHelp c) = topBorder env width
    \<and> bottomBorder env width = Inr (last (assembled env width showHelp c))"
proof -
  let ?out = "topBorder env width # map (padLine env width) c"
  let ?e = "border env @ concat (replicate (nat (width - 2)) (js '' '')) @ border env"
  let ?p = "padLoop ?out (targetHeight env) ?e"
  have len: "int (length ?p) = max (int (length c) + 1) (targetHeight env - 1)"
    using padLoop_length [of ?out "targetHeight env" ?e] by simp
  have two: "2 \<le> length ?p"
    using len targetHeight_ge [of env] by linarith
  have hd: "hd ?p = topBorder env width"
    using padLoop_hd [of ?out "targetHeight env" ?e] by simp
  have ne: "?p \<noteq> []" using two by auto
  show ?thesis
    using len hd two ne assms
    by (auto simp: assembled_def Let_def hd_update_last bottomBorder_def repeat_def hd_append)
qed

lemma pickerContent_length: "length (pickerContent env m) = length (fileList m) + 4"
  by (simp add: pickerContent_def)

lemma noFilesContent_length: "length (noFilesContent env) = 3"
  by (simp add: noFilesContent_def)

lemma overlay_render_rows:
  assumes w: "4 \<le> width"
    and sel: "index_ok (fileList (modal st)) (selectedIndex (modal st))"
  shows "\<exists>rows vc'. overlay_render env st width = Inr (rows, vc')
    \<and> int (length rows) =
        (if fileList (modal st) \<noteq> [] \<and> filePickerOpen (modal st)
         then max (int (length (fileList (modal st))) + 6) (targetHeight env)
         else targetHeight env)
    \<and> hd rows = topBorder env width
    \<and> bottomBorder env width = Inr (last rows)"
proof -
  have w2: "2 \<le> width" using w by simp
  let ?showHelp = "fileList (modal st) \<noteq> [] \<and> \<not> filePickerOpen (modal st)"
  consider (none) "fileList (modal st) = []"
    | (picker) "fileList (modal st) \<noteq> []" "filePickerOpen (modal st)"
    | (diff) "fileList (modal st) \<noteq> []" "\<not> filePickerOpen (modal st)"
    by blast
  then show ?thesis
  proof cases
    case none
    have "overlay_render env st width =
        Inr (assembled env width ?showHelp (noFilesContent env), viewController st)"
      by (rule overlay_render_assembled [OF w2]) (simp add: none)
    then show ?thesis
      using assembled_rows [OF w2, of env ?showHelp "noFilesContent env"] none
        targetHeight_ge [of env]
      by (simp add: noFilesContent_length)
  next
    case picker
    have "overlay_render env st width =
        Inr (assembled env width ?showHelp (pickerContent env (modal st)), viewController st)"
      by (rule overlay_render_assembled [OF w2]) (simp add: picker)
    then show ?thesis
      using assembled_rows [OF w2, of env ?showHelp "pickerContent env (modal st)"] picker
      by (simp add: pickerContent_length)
  next
    case diff
    obtain f where f: "at_index (fileList (modal st)) (selectedIndex (modal st)) = Some f"
      using sel diff by (auto simp: index_ok_def at_index_def)
    obtain c vc' where c: "diffContent env width st = Inr (c, vc')"
      "int (length c) \<le> targetHeight env - 5"
      using diffContent_ok [OF w f, of env] by blast
    have "overlay_render env st width = Inr (assembled env width ?showHelp c, vc')"
      by (rule overlay_render_assembled [OF w2]) (simp add: diff c)
    then show ?thesis
      using assembled_rows [OF w2, of env ?showHelp c] diff c(2)
      by simp
  qed
qed

lemma manyChanged_files: "getChangedFiles (manyChanged n) = map fst (manyChanged n)"
proof -
  have "js ''a'' \<noteq> js ''b''" by (simp add: js_def)
  then have "filter (\<lambda>(p, snapshot). originalContent snapshot \<noteq> currentContent snapshot)
      (manyChanged n) = manyChanged n"
    by (simp add: manyChanged_def filter_map o_def)
  then show ?thesis by (simp add: getChangedFiles_def)
qed

lemma refresh_length:
  "length (fileList (refresh sp m)) = length (getChangedFiles (diffState m))"
  by (simp add: refresh_def Let_def)

text \<open>
  C9 does not hold of the code.  With the default terminal height the overlay has a target
  of 30 rows; with 25 changed files and the file picker open, \<open>render\<close> returns 31 rows:
  the picker lists every file and nothing cuts the content to the target.  (Lemma
  \<open>overlay_render_rows\<close> above gives the count in general: for a width of at least 4 and
  a selection inside the file list it is the target height, except in the picker, where
  it is the larger of the target and the number of files plus 6.)
\<close>

theorem overlay_picker_overflows:
  "targetHeight (testEnv None pct) = 30
   \<and> length (fileList (openFilePicker (new_DiffReviewModal sp (manyChanged 25)))) = 25
   \<and> filePickerOpen (openFilePicker (new_DiffReviewModal sp (manyChanged 25)))
   \<and> (case overlay_render (testEnv None pct)
              \<lparr>modal = openFilePicker (new_DiffReviewModal sp (manyChanged 25)),
               viewController = vc\<rparr> 80 of
         Inl e \<Rightarrow> None
       | Inr (rows, vc') \<Rightarrow> Some (length rows)) = Some 31"
proof -
  let ?m = "openFilePicker (new_DiffReviewModal sp (manyChanged 25))"
  let ?st = "\<lparr>modal = ?m, viewController = vc\<rparr>"
  have T: "targetHeight (testEnv None pct) = 30"
    by (simp add: targetHeight_def testEnv_def)
  have n: "length (fileList ?m) = 25"
    by (simp add: openFilePicker_def new_DiffReviewModal_def refresh_length manyChanged_files)
      (simp add: manyChanged_def)
  have ne: "fileList ?m \<noteq> []" using n by auto
  have isopen: "filePickerOpen ?m" by (simp add: openFilePicker_def)
  have "overlay_render (testEnv None pct) ?st 80 =
      Inr (assembled (testEnv None pct) 80 False (pickerContent (testEnv None pct) ?m), vc)"
    using overlay_render_assembled [of 80 ?st "testEnv None pct" "pickerContent (testEnv None pct) ?m" vc]
      ne isopen by simp
  moreover have "int (length (assembled (testEnv None pct) 80 False
      (pickerContent (testEnv None pct) ?m))) = 31"
    using assembled_rows [of 80 "testEnv None pct" False "pickerContent (testEnv None pct) ?m"] T n
    by (simp add: pickerContent_length)
  ultimately show ?thesis using T n isopen by simp
qed

end
